theory Spec2Isabelle
  imports Main "HOL-Library.AList"
begin

section \<open>Data model\<close>

text \<open>
  A \<open>Todo\<close> row of the Prisma client: the fields the dependency logic reads. A date is
  the time value of a JavaScript \<open>Date\<close> (milliseconds since the epoch, an integer);
  \<open>None\<close> is \<open>null\<close>.
\<close>

record todo =
  todoId :: int
  title :: string
  dueDate :: "int option"

text \<open>
  The task store behind \<open>prisma.todo\<close>: every row carries the ids of its dependencies
  (the rows of the relation table that start at it); \<open>nextId\<close> is the autoincrement
  counter of the primary key.
\<close>

record todoRow = todo +
  depIds :: "int list"

record store =
  rows :: "todoRow list"
  nextId :: int

definition findUnique :: "store \<Rightarrow> int \<Rightarrow> todoRow option" where
  "findUnique st i = find (\<lambda>r. todoId r = i) (rows st)"

text \<open>\<open>include: { dependencies: true }\<close>: the related rows that exist in the store.\<close>

definition includeDependencies :: "store \<Rightarrow> todoRow \<Rightarrow> todoRow list" where
  "includeDependencies st r = List.map_filter (findUnique st) (depIds r)"

definition findMany :: "store \<Rightarrow> int list \<Rightarrow> todoRow list" where
  "findMany st ids = filter (\<lambda>r. todoId r \<in> set ids) (rows st)"

definition storeIds :: "store \<Rightarrow> int set" where
  "storeIds st = todoId ` set (rows st)"

section \<open>The cycle checker (lib/dependencyUtils)\<close>

text \<open>
  \<open>hasPath\<close> threads the mutable \<open>visited\<close> set through the recursion and through the
  \<open>for\<close> loop over \<open>todo.dependencies\<close>; the model returns it with the answer.
  \<open>hasPath_for\<close> is that loop.
\<close>

function hasPath :: "store \<Rightarrow> int \<Rightarrow> int \<Rightarrow> int set \<Rightarrow> bool \<times> int set"
  and hasPath_for :: "store \<Rightarrow> int \<Rightarrow> todoRow list \<Rightarrow> int set \<Rightarrow> bool \<times> int set"
where
  "hasPath st fromId toId visited =
     (if fromId = toId then (True, visited)
      else if fromId \<in> visited then (False, visited)
      else (case findUnique st fromId of
              None \<Rightarrow> (False, insert fromId visited)
            | Some todo \<Rightarrow>
                hasPath_for st toId (includeDependencies st todo) (insert fromId visited)))"
| "hasPath_for st toId [] visited = (False, visited)"
| "hasPath_for st toId (dep # deps) visited =
     (case hasPath st (todoId dep) toId visited of
        (True, visited') \<Rightarrow> (True, visited')
      | (False, visited') \<Rightarrow> hasPath_for st toId deps visited')"
  by pat_completeness auto

lemma visited_grows_dom:
  "hasPath_hasPath_for_dom (Inl (st, fromId, toId, visited)) \<Longrightarrow>
     visited \<subseteq> snd (hasPath st fromId toId visited)"
  "hasPath_hasPath_for_dom (Inr (st, toId, deps, visited)) \<Longrightarrow>
     visited \<subseteq> snd (hasPath_for st toId deps visited)"
proof (induction st fromId toId visited and st toId deps visited
       rule: hasPath_hasPath_for.pinduct)
  case (1 st fromId toId visited)
  then show ?case
    by (auto simp: hasPath.psimps split: option.splits)
next
  case (2 st toId visited)
  then show ?case by (simp add: hasPath_for.psimps)
next
  case (3 st toId dep deps visited)
  show ?case
  proof (cases "hasPath st (todoId dep) toId visited")
    case (Pair b v)
    with 3 have "visited \<subseteq> v" by simp
    moreover have "\<not> b \<Longrightarrow> v \<subseteq> snd (hasPath_for st toId deps v)"
      using 3(3)[of b v] Pair by simp
    ultimately show ?thesis
      using 3(1) Pair by (cases b) (auto simp: hasPath_for.psimps)
  qed
qed

lemma findUnique_in_store: "findUnique st i = Some r \<Longrightarrow> i \<in> storeIds st"
  by (auto simp: findUnique_def storeIds_def find_Some_iff)

lemma findUnique_todoId: "findUnique st i = Some r \<Longrightarrow> todoId r = i"
  by (auto simp: findUnique_def find_Some_iff)

text \<open>
  Every call of \<open>hasPath\<close> on an unvisited row of the store marks one more row of the
  store as visited, and the loop never loses a mark: the number of unvisited rows,
  then the number of dependencies left in the loop, decreases along every call.
\<close>

lemma hasPath_total: "All hasPath_hasPath_for_dom"
proof (relation "inv_image (less_than <*lex*> less_than)
    (\<lambda>x. case x of
        Inl (st, fromId, toId, visited) \<Rightarrow> (card (storeIds st - visited), 0)
      | Inr (st, toId, deps, visited) \<Rightarrow> (card (storeIds st - visited), Suc (length deps)))",
    goal_cases)
  case 1
  then show ?case by (intro wf_inv_image wf_lex_prod wf_less_than)
next
  case (2 st fromId toId visited todo)
  have fin: "finite (storeIds st - visited)" by (simp add: storeIds_def)
  from 2 have "fromId \<in> storeIds st - visited" by (simp add: findUnique_in_store)
  then have "card (storeIds st - insert fromId visited) < card (storeIds st - visited)"
    using fin by (metis Diff_insert card_Diff1_less)
  then show ?case by simp
next
  case (3 st toId dep deps visited)
  then show ?case by simp
next
  case (4 st toId dep deps visited x y)
  have "visited \<subseteq> snd (hasPath st (todoId dep) toId visited)"
    using 4 visited_grows_dom(1) by blast
  moreover have "snd (hasPath st (todoId dep) toId visited) = y"
    using 4(1) by (metis snd_conv)
  ultimately have "visited \<subseteq> y" by simp
  then have "card (storeIds st - y) \<le> card (storeIds st - visited)"
    by (intro card_mono) (auto simp: storeIds_def)
  then show ?case by auto
qed

termination hasPath
  by (rule hasPath_total)

declare hasPath.simps [simp del]

fun hasCircularDependency :: "store \<Rightarrow> int \<Rightarrow> int list \<Rightarrow> bool" where
  "hasCircularDependency st todoId' [] = False"
| "hasCircularDependency st todoId' (depId # dependencyIds) =
     (if fst (hasPath st depId todoId' {}) then True
      else hasCircularDependency st todoId' dependencyIds)"

text \<open>The existing dependency edges: \<open>(a, b)\<close> when the row \<open>a\<close> has the row \<open>b\<close> among its dependencies.\<close>

definition dependsOn :: "store \<Rightarrow> (int \<times> int) set" where
  "dependsOn st =
     {(a, b). \<exists>r. findUnique st a = Some r \<and> b \<in> todoId ` set (includeDependencies st r)}"

lemma visited_grows:
  "visited \<subseteq> snd (hasPath st fromId toId visited)"
  "visited \<subseteq> snd (hasPath_for st toId deps visited)"
  using visited_grows_dom hasPath_total by blast+

text \<open>A search that answers \<open>true\<close> has found a path.\<close>

lemma hasPath_sound:
  "fst (hasPath st fromId toId visited) \<Longrightarrow> (fromId, toId) \<in> (dependsOn st)\<^sup>*"
  "fst (hasPath_for st toId deps visited) \<Longrightarrow>
     \<exists>dep\<in>set deps. (todoId dep, toId) \<in> (dependsOn st)\<^sup>*"
proof (induction st fromId toId visited and st toId deps visited
       rule: hasPath_hasPath_for.induct)
  case (1 st fromId toId visited)
  show ?case
  proof (cases "fromId = toId")
    case True
    then show ?thesis by simp
  next
    case False
    with 1(2) obtain todo where todo: "fromId \<notin> visited" "findUnique st fromId = Some todo"
      and res: "fst (hasPath_for st toId (includeDependencies st todo) (insert fromId visited))"
      by (auto simp: hasPath.simps[of st fromId toId visited] split: if_splits option.splits)
    from 1(1)[OF False todo res]
    obtain dep where dep: "dep \<in> set (includeDependencies st todo)"
      "(todoId dep, toId) \<in> (dependsOn st)\<^sup>*" by blast
    have "(fromId, todoId dep) \<in> dependsOn st"
      using todo dep(1) by (auto simp: dependsOn_def)
    then show ?thesis using dep(2) by (rule converse_rtrancl_into_rtrancl)
  qed
next
  case (2 st toId visited)
  then show ?case by simp
next
  case (3 st toId dep deps visited)
  show ?case
  proof (cases "hasPath st (todoId dep) toId visited")
    case (Pair b v)
    show ?thesis
    proof (cases b)
      case True
      then show ?thesis using 3(1) Pair by simp
    next
      case False
      then have "fst (hasPath_for st toId deps v)" using 3(3) Pair by simp
      then show ?thesis using 3(2)[of b v] Pair False by auto
    qed
  qed
qed

text \<open>
  A search that answers \<open>false\<close> leaves every row it marked closed under the
  dependency edges, and never marks the target.
\<close>

definition closedFrom :: "store \<Rightarrow> int \<Rightarrow> int set \<Rightarrow> int set \<Rightarrow> bool" where
  "closedFrom st toId visited V \<longleftrightarrow>
     toId \<notin> V \<and> (\<forall>x\<in>V - visited. \<forall>y. (x, y) \<in> dependsOn st \<longrightarrow> y \<in> V)"

lemma closedFrom_trans:
  "closedFrom st t A B \<Longrightarrow> closedFrom st t B C \<Longrightarrow> B \<subseteq> C \<Longrightarrow> closedFrom st t A C"
  unfolding closedFrom_def by blast

lemma hasPath_closed:
  "\<not> fst (hasPath st fromId toId visited) \<Longrightarrow> toId \<notin> visited \<Longrightarrow>
     fromId \<in> snd (hasPath st fromId toId visited) \<and>
     closedFrom st toId visited (snd (hasPath st fromId toId visited))"
  "\<not> fst (hasPath_for st toId deps visited) \<Longrightarrow> toId \<notin> visited \<Longrightarrow>
     todoId ` set deps \<subseteq> snd (hasPath_for st toId deps visited) \<and>
     closedFrom st toId visited (snd (hasPath_for st toId deps visited))"
proof (induction st fromId toId visited and st toId deps visited
       rule: hasPath_hasPath_for.induct)
  case (1 st fromId toId visited)
  note hp = hasPath.simps[of st fromId toId visited]
  from 1(2) have ne: "fromId \<noteq> toId" by (auto simp: hp)
  show ?case
  proof (cases "fromId \<in> visited")
    case True
    then show ?thesis using ne 1(3) by (simp add: hp closedFrom_def)
  next
    case nv: False
    show ?thesis
    proof (cases "findUnique st fromId")
      case None
      then have "\<And>y. (fromId, y) \<notin> dependsOn st" by (simp add: dependsOn_def)
      then show ?thesis using ne nv None 1(3) by (auto simp: hp closedFrom_def)
    next
      case (Some todo)
      define V where "V = snd (hasPath_for st toId (includeDependencies st todo) (insert fromId visited))"
      have eq: "snd (hasPath st fromId toId visited) = V"
        and eq': "fst (hasPath st fromId toId visited)
                   = fst (hasPath_for st toId (includeDependencies st todo) (insert fromId visited))"
        using ne nv Some by (simp_all add: hp V_def)
      have nf: "\<not> fst (hasPath_for st toId (includeDependencies st todo) (insert fromId visited))"
        using 1(2) eq' by simp
      have nt: "toId \<notin> insert fromId visited" using 1(3) ne by simp
      have ih: "todoId ` set (includeDependencies st todo) \<subseteq> V"
               "closedFrom st toId (insert fromId visited) V"
        using 1(1)[OF ne nv Some nf nt] unfolding V_def by blast+
      have mono: "insert fromId visited \<subseteq> V" unfolding V_def by (rule visited_grows(2))
      have succ: "\<And>y. (fromId, y) \<in> dependsOn st \<Longrightarrow> y \<in> V"
        using ih(1) Some by (auto simp: dependsOn_def)
      have "closedFrom st toId visited V"
        using ih(2) succ unfolding closedFrom_def by blast
      then show ?thesis
        unfolding eq using mono by blast
    qed
  qed
next
  case (2 st toId visited)
  then show ?case by (simp add: closedFrom_def)
next
  case (3 st toId dep deps visited)
  obtain b v where bv: "hasPath st (todoId dep) toId visited = (b, v)"
    by (cases "hasPath st (todoId dep) toId visited")
  have nb: "\<not> b" using 3(3) bv by (cases b) simp_all
  have eq: "hasPath_for st toId (dep # deps) visited = hasPath_for st toId deps v"
    using bv nb by simp
  have h1: "todoId dep \<in> v" "closedFrom st toId visited v"
    using 3(1) bv nb 3(4) by simp_all
  define V where "V = snd (hasPath_for st toId deps v)"
  have nf: "\<not> fst (hasPath_for st toId deps v)" using 3(3) eq by simp
  have tv: "toId \<notin> v" using h1(2) by (simp add: closedFrom_def)
  have h2: "todoId ` set deps \<subseteq> V" "closedFrom st toId v V"
    using 3(2)[OF bv[symmetric] _ nf tv] nb unfolding V_def by blast+
  have mono: "v \<subseteq> V" unfolding V_def by (rule visited_grows(2))
  have "closedFrom st toId visited V"
    using h1(2) h2(2) mono by (rule closedFrom_trans)
  then show ?case
    unfolding eq V_def[symmetric] using h1(1) h2(1) mono by auto
qed

lemma hasPath_complete:
  assumes "(fromId, toId) \<in> (dependsOn st)\<^sup>*"
  shows "fst (hasPath st fromId toId {})"
proof (rule ccontr)
  assume nf: "\<not> fst (hasPath st fromId toId {})"
  define V where "V = snd (hasPath st fromId toId {})"
  have c: "fromId \<in> V" "toId \<notin> V" "\<And>x y. x \<in> V \<Longrightarrow> (x, y) \<in> dependsOn st \<Longrightarrow> y \<in> V"
    using hasPath_closed(1)[OF nf] by (auto simp: closedFrom_def V_def)
  have "toId \<in> V"
    using assms c(1)
  proof (induction rule: rtrancl_induct)
    case base
    then show ?case .
  next
    case (step y z)
    then show ?case using c(3) by blast
  qed
  then show False using c(2) by contradiction
qed

lemma hasPath_iff: "fst (hasPath st fromId toId {}) \<longleftrightarrow> (fromId, toId) \<in> (dependsOn st)\<^sup>*"
  using hasPath_sound(1) hasPath_complete by blast

lemma hasCircularDependency_iff:
  "hasCircularDependency st t ds \<longleftrightarrow> (\<exists>d\<in>set ds. (d, t) \<in> (dependsOn st)\<^sup>*)"
  by (induction ds) (simp_all add: hasPath_iff)


section \<open>The route handlers (api/todos and api/todos/[id])\<close>

text \<open>
  A handler takes the store and returns the response with the store it leaves. The
  Pexels image download of \<open>POST\<close> touches neither and is left out (its failure is
  caught and logged). A thrown Prisma error is \<open>None\<close> and ends in the handler's
  \<open>catch\<close>.
\<close>

datatype response = JsonError string nat | JsonTodo "todoRow option" nat

text \<open>
  The request body of \<open>POST\<close>. The due date arrives as a calendar date
  \<open>YYYY-MM-DD\<close> (or empty, which is falsy): \<open>bodyDueDate\<close> is its day number since
  the epoch, and \<open>noonUTC\<close> is \<open>new Date(dueDate + 'T12:00:00.000Z')\<close>.
\<close>

record postBody =
  bodyTitle :: string
  bodyDueDate :: "int option"
  bodyDependencyIds :: "int list option"

definition msPerDay :: int where
  "msPerDay = 86400000"

definition noonUTC :: "int \<Rightarrow> int" where
  "noonUTC day = day * msPerDay + 43200000"

definition isWhiteSpace :: "char \<Rightarrow> bool" where
  "isWhiteSpace c \<longleftrightarrow> c \<in> set [CHR 0x09, CHR 0x0A, CHR 0x0B, CHR 0x0C, CHR 0x0D, CHR 0x20, CHR 0xA0]"

definition trim :: "string \<Rightarrow> string" where
  "trim s = rev (dropWhile isWhiteSpace (rev (dropWhile isWhiteSpace s)))"

definition createTodo :: "store \<Rightarrow> string \<Rightarrow> int option \<Rightarrow> todoRow \<times> store" where
  "createTodo st ttl due =
     (let todo = \<lparr>todoId = nextId st, title = ttl, dueDate = due, depIds = []\<rparr>
      in (todo, st\<lparr>rows := rows st @ [todo], nextId := nextId st + 1\<rparr>))"

text \<open>Deleting a row also deletes the relation rows that point at it.\<close>

definition deleteTodo :: "store \<Rightarrow> int \<Rightarrow> store" where
  "deleteTodo st i =
     st\<lparr>rows := map (\<lambda>r. r\<lparr>depIds := removeAll i (depIds r)\<rparr>)
                     (filter (\<lambda>r. todoId r \<noteq> i) (rows st))\<rparr>"

text \<open>
  \<open>update\<close> with \<open>connect\<close> throws when the row or one of the connected ids does not
  exist; \<open>set: []\<close> clears the relation first.
\<close>

definition connectDependencies :: "store \<Rightarrow> int \<Rightarrow> int list \<Rightarrow> store option" where
  "connectDependencies st i ids =
     (if findUnique st i = None \<or> (\<exists>d\<in>set ids. findUnique st d = None) then None
      else Some (st\<lparr>rows := map (\<lambda>r. if todoId r = i
                                      then r\<lparr>depIds := depIds r @
                                              filter (\<lambda>d. d \<notin> set (depIds r)) (remdups ids)\<rparr>
                                      else r) (rows st)\<rparr>))"

definition setDependencies :: "store \<Rightarrow> int \<Rightarrow> int list \<Rightarrow> store option" where
  "setDependencies st i ids =
     (if findUnique st i = None \<or> (\<exists>d\<in>set ids. findUnique st d = None) then None
      else Some (st\<lparr>rows := map (\<lambda>r. if todoId r = i then r\<lparr>depIds := remdups ids\<rparr> else r)
                               (rows st)\<rparr>))"

text \<open>\<open>dep.dueDate && dep.dueDate > due\<close>\<close>

definition dueAfter :: "int \<Rightarrow> todoRow \<Rightarrow> bool" where
  "dueAfter due dep = (case dueDate dep of None \<Rightarrow> False | Some d \<Rightarrow> d > due)"

definition circularMessage :: string where
  "circularMessage = ''Cannot add dependencies: would create circular dependency''"

definition dueMessage :: "string \<Rightarrow> string \<Rightarrow> string" where
  "dueMessage ttl which =
     ''Dependency '' @ [CHR 0x22] @ ttl @ [CHR 0x22] @ '' has a due date after the '' @ which @ '' todo.''"

definition POST_finish :: "store \<Rightarrow> int \<Rightarrow> response \<times> store" where
  "POST_finish st i = (JsonTodo (findUnique st i) 201, st)"

definition POST :: "store \<Rightarrow> postBody \<Rightarrow> response \<times> store" where
  "POST st body =
     (if bodyTitle body = [] \<or> trim (bodyTitle body) = []
      then (JsonError ''Title is required'' 400, st)
      else
        case createTodo st (bodyTitle body) (map_option noonUTC (bodyDueDate body)) of
          (todo, st1) \<Rightarrow>
            (case bodyDependencyIds body of
               None \<Rightarrow> POST_finish st1 (todoId todo)
             | Some dependencyIds \<Rightarrow>
                 if dependencyIds = [] then POST_finish st1 (todoId todo)
                 else if hasCircularDependency st1 (todoId todo) dependencyIds
                 then (JsonError circularMessage 400, deleteTodo st1 (todoId todo))
                 else
                   (case (case bodyDueDate body of
                            None \<Rightarrow> None
                          | Some day \<Rightarrow> find (dueAfter (noonUTC day)) (findMany st1 dependencyIds)) of
                      Some dep \<Rightarrow>
                        (JsonError (dueMessage (title dep) ''new'') 400, deleteTodo st1 (todoId todo))
                    | None \<Rightarrow>
                        (case connectDependencies st1 (todoId todo) dependencyIds of
                           None \<Rightarrow> (JsonError ''Error creating todo'' 500, st1)
                         | Some st2 \<Rightarrow> POST_finish st2 (todoId todo)))))"

definition PATCH_update :: "store \<Rightarrow> int \<Rightarrow> int list option \<Rightarrow> response \<times> store" where
  "PATCH_update st i dependencyIds =
     (case setDependencies st i (case dependencyIds of None \<Rightarrow> [] | Some ids \<Rightarrow> ids) of
        None \<Rightarrow> (JsonError ''Error updating dependencies'' 500, st)
      | Some st' \<Rightarrow> (JsonTodo (findUnique st' i) 200, st'))"

text \<open>\<open>params\<close> is the result of \<open>parseInt(params.id)\<close>, \<open>None\<close> for \<open>NaN\<close>.\<close>

definition PATCH :: "store \<Rightarrow> int option \<Rightarrow> int list option \<Rightarrow> response \<times> store" where
  "PATCH st params dependencyIds =
     (case params of
        None \<Rightarrow> (JsonError ''Invalid ID'' 400, st)
      | Some i \<Rightarrow>
          (case dependencyIds of
             None \<Rightarrow> PATCH_update st i dependencyIds
           | Some ids \<Rightarrow>
               if ids = [] then PATCH_update st i dependencyIds
               else
                 (case findUnique st i of
                    None \<Rightarrow> (JsonError ''Todo not found'' 404, st)
                  | Some existingTodo \<Rightarrow>
                      if hasCircularDependency st i ids
                      then (JsonError circularMessage 400, st)
                      else
                        (case (case dueDate existingTodo of
                                 None \<Rightarrow> None
                               | Some due \<Rightarrow> find (dueAfter due) (findMany st ids)) of
                           Some dep \<Rightarrow> (JsonError (dueMessage (title dep) ''current'') 400, st)
                         | None \<Rightarrow> PATCH_update st i dependencyIds))))"

text \<open>
  The earlier revision of this handler, the one that still carries its own copy of
  \<open>hasCircularDependency\<close> and \<open>hasPath\<close>: the same, without the validation of due
  dates.
\<close>

definition PATCH_earlier :: "store \<Rightarrow> int option \<Rightarrow> int list option \<Rightarrow> response \<times> store" where
  "PATCH_earlier st params dependencyIds =
     (case params of
        None \<Rightarrow> (JsonError ''Invalid ID'' 400, st)
      | Some i \<Rightarrow>
          (case dependencyIds of
             None \<Rightarrow> PATCH_update st i dependencyIds
           | Some ids \<Rightarrow>
               if ids = [] then PATCH_update st i dependencyIds
               else
                 (case findUnique st i of
                    None \<Rightarrow> (JsonError ''Todo not found'' 404, st)
                  | Some existingTodo \<Rightarrow>
                      if hasCircularDependency st i ids
                      then (JsonError circularMessage 400, st)
                      else PATCH_update st i dependencyIds)))"

text \<open>Ids come from the autoincrement counter, and the relation table refers to ids handed out.\<close>

definition storeOk :: "store \<Rightarrow> bool" where
  "storeOk st \<longleftrightarrow>
     (\<forall>r\<in>set (rows st). todoId r < nextId st \<and> (\<forall>d\<in>set (depIds r). d < nextId st))"

text \<open>Sample stores: task 1 depends on task 2; tasks 1 and 2 depend on each other.\<close>

definition sampleStore :: store where
  "sampleStore =
     \<lparr>rows = [\<lparr>todoId = 1, title = ''draft'', dueDate = Some (noonUTC 19740), depIds = [2]\<rparr>,
              \<lparr>todoId = 2, title = ''plan'', dueDate = Some (noonUTC 19750), depIds = []\<rparr>],
      nextId = 3\<rparr>"

definition cyclicStore :: store where
  "cyclicStore =
     \<lparr>rows = [\<lparr>todoId = 1, title = ''a'', dueDate = None, depIds = [2]\<rparr>,
              \<lparr>todoId = 2, title = ''b'', dueDate = None, depIds = [1]\<rparr>],
      nextId = 3\<rparr>"

definition lateBody :: postBody where
  "lateBody = \<lparr>bodyTitle = ''ship'', bodyDueDate = Some 19745, bodyDependencyIds = Some [2]\<rparr>"

lemma deleteTodo_createTodo:
  assumes "storeOk st" and "createTodo st ttl due = (todo, st1)"
  shows "rows (deleteTodo st1 (todoId todo)) = rows st"
proof -
  have st1: "st1 = st\<lparr>rows := rows st @ [todo], nextId := nextId st + 1\<rparr>"
    and todo: "todoId todo = nextId st"
    using assms(2) by (auto simp: createTodo_def Let_def)
  have a: "filter (\<lambda>r. todoId r \<noteq> nextId st) (rows st) = rows st"
    using assms(1) by (intro filter_True) (auto simp: storeOk_def)
  have b: "map (\<lambda>r. r\<lparr>depIds := removeAll (nextId st) (depIds r)\<rparr>) (rows st) = rows st"
  proof (rule map_idI)
    fix r assume "r \<in> set (rows st)"
    then have "nextId st \<notin> set (depIds r)" using assms(1) by (auto simp: storeOk_def)
    then show "r\<lparr>depIds := removeAll (nextId st) (depIds r)\<rparr> = r" by simp
  qed
  show ?thesis
    by (simp add: deleteTodo_def st1 todo a b)
qed

lemma find_dueAfter:
  "dep \<in> set xs \<Longrightarrow> dueDate dep = Some d \<Longrightarrow> d > due \<Longrightarrow> \<exists>dep'. find (dueAfter due) xs = Some dep'"
  by (cases "find (dueAfter due) xs") (auto simp: find_None_iff dueAfter_def)

lemma sample_simps:
  "findUnique sampleStore 1 = Some \<lparr>todoId = 1, title = ''draft'', dueDate = Some (noonUTC 19740), depIds = [2]\<rparr>"
  "findUnique sampleStore 2 = Some \<lparr>todoId = 2, title = ''plan'', dueDate = Some (noonUTC 19750), depIds = []\<rparr>"
  by (simp_all add: sampleStore_def findUnique_def)

section \<open>Claims about the cycle checker and the route handlers\<close>

text \<open>
  C9. On every store, also one whose dependency edges already form a cycle, the
  search \<open>hasPath\<close> terminates: every input lies in the domain of the recursion (the
  accessible part of its call relation). The \<open>visited\<close> set only grows, a row other
  than the target is marked once the search has been at it, and a marked row is
  answered at once without being expanded again.
\<close>

theorem hasPath_terminates:
  "hasPath_hasPath_for_dom (Inl (st, fromId, toId, visited)) \<and>
   visited \<subseteq> snd (hasPath st fromId toId visited) \<and>
   (fromId \<noteq> toId \<longrightarrow> fromId \<in> snd (hasPath st fromId toId visited)) \<and>
   (fromId \<noteq> toId \<longrightarrow> fromId \<in> visited \<longrightarrow> hasPath st fromId toId visited = (False, visited))"
proof -
  have "hasPath_hasPath_for_dom (Inl (st, fromId, toId, visited))"
    using hasPath_total by blast
  moreover have "visited \<subseteq> snd (hasPath st fromId toId visited)"
    by (rule visited_grows(1))
  moreover have "fromId \<in> snd (hasPath st fromId toId visited)" if "fromId \<noteq> toId"
  proof (cases "fromId \<in> visited")
    case True
    then show ?thesis using that by (simp add: hasPath.simps[of st fromId toId visited])
  next
    case False
    show ?thesis
    proof (cases "findUnique st fromId")
      case None
      then show ?thesis using that False by (simp add: hasPath.simps[of st fromId toId visited])
    next
      case (Some todo)
      have "insert fromId visited
              \<subseteq> snd (hasPath_for st toId (includeDependencies st todo) (insert fromId visited))"
        by (rule visited_grows(2))
      then show ?thesis using that False Some by (simp add: hasPath.simps[of st fromId toId visited])
    qed
  qed
  moreover have "hasPath st fromId toId visited = (False, visited)"
    if "fromId \<noteq> toId" "fromId \<in> visited"
    using that by (simp add: hasPath.simps[of st fromId toId visited])
  ultimately show ?thesis by blast
qed

lemma cyclic_simps:
  "findUnique cyclicStore 1 = Some \<lparr>todoId = 1, title = ''a'', dueDate = None, depIds = [2]\<rparr>"
  "findUnique cyclicStore 2 = Some \<lparr>todoId = 2, title = ''b'', dueDate = None, depIds = [1]\<rparr>"
  "findUnique cyclicStore 3 = None"
  by (simp_all add: cyclicStore_def findUnique_def)

lemma hasPath_cyclicStore: "hasPath cyclicStore 1 3 {} = (False, {1, 2})"
  by (simp add: hasPath.simps[of cyclicStore] cyclic_simps includeDependencies_def
      List.map_filter_simps insert_commute)

theorem hasPath_terminates_witness:
  "hasPath_hasPath_for_dom (Inl (cyclicStore, 1, 3, {})) \<and>
   (1::int) \<noteq> 3 \<and> 1 \<in> snd (hasPath cyclicStore 1 3 {}) \<and>
   (2::int) \<in> {2} \<and> hasPath cyclicStore 2 3 {2} = (False, {2}) \<and>
   hasPath cyclicStore 1 3 {} = (False, {1, 2})"
  using hasPath_terminates[of cyclicStore 1 3 "{}"] hasPath_terminates[of cyclicStore 2 3 "{2}"]
    hasPath_cyclicStore
  by simp

text \<open>
  C10. A search that starts at an id that is not the target and has no row in the
  store answers \<open>false\<close>; so \<open>hasCircularDependency\<close> answers \<open>false\<close> for a set
  of proposed ids none of which has a row (each of them other than the task's own id,
  as the first sentence requires and as holds whenever the task itself has a row).
\<close>

theorem hasPath_missing_row:
  "(fromId \<noteq> toId \<longrightarrow> findUnique st fromId = None \<longrightarrow>
      \<not> fst (hasPath st fromId toId visited)) \<and>
   ((\<forall>d\<in>set dependencyIds. d \<noteq> t \<and> findUnique st d = None) \<longrightarrow>
      \<not> hasCircularDependency st t dependencyIds)"
proof -
  have a: "\<not> fst (hasPath st f t' v)" if "f \<noteq> t'" "findUnique st f = None" for f t' v
    using that by (simp add: hasPath.simps[of st f t' v])
  have "\<not> hasCircularDependency st t ds" if "\<forall>d\<in>set ds. d \<noteq> t \<and> findUnique st d = None" for ds
    using that by (induction ds) (simp_all add: a)
  with a show ?thesis by blast
qed

theorem hasPath_missing_row_witness:
  "(7::int) \<noteq> 1 \<and> findUnique sampleStore 7 = None \<and> \<not> fst (hasPath sampleStore 7 1 {}) \<and>
   (8::int) \<noteq> 1 \<and> findUnique sampleStore 8 = None \<and>
   \<not> hasCircularDependency sampleStore 1 [7, 8]"
proof -
  have h: "\<forall>d\<in>set [7, 8]. d \<noteq> 1 \<and> findUnique sampleStore d = None"
    by (simp add: sampleStore_def findUnique_def)
  have n: "findUnique sampleStore 7 = None" "findUnique sampleStore 8 = None"
    by (simp_all add: sampleStore_def findUnique_def)
  show ?thesis
    using hasPath_missing_row[of 7 1 sampleStore "{}" "[7, 8]" 1] h n
    by (simp del: hasCircularDependency.simps)
qed

text \<open>
  C1. \<open>hasCircularDependency\<close> answers \<open>true\<close> exactly when the task is reachable
  from one of the proposed ids along existing dependency edges, in zero or more steps;
  zero steps is the self-dependency. When task \<open>a\<close> depends on task \<open>b\<close>, proposing
  \<open>[a]\<close> as the dependencies of \<open>b\<close> answers \<open>true\<close>, and \<open>PATCH\<close> rejects the
  edit with status 400 and leaves the store as it was.
\<close>

theorem hasCircularDependency_iff_reachable:
  "(hasCircularDependency st t dependencyIds \<longleftrightarrow>
      (\<exists>d\<in>set dependencyIds. (d, t) \<in> (dependsOn st)\<^sup>*)) \<and>
   hasCircularDependency st t [t] \<and>
   ((a, b) \<in> dependsOn st \<longrightarrow>
      hasCircularDependency st b [a] \<and>
      PATCH st (Some b) (Some [a]) = (JsonError circularMessage 400, st))"
proof -
  have 1: "hasCircularDependency st t dependencyIds \<longleftrightarrow>
      (\<exists>d\<in>set dependencyIds. (d, t) \<in> (dependsOn st)\<^sup>*)"
    by (rule hasCircularDependency_iff)
  have 2: "hasCircularDependency st t [t]"
    by (simp add: hasCircularDependency_iff)
  have 3: "hasCircularDependency st b [a] \<and>
      PATCH st (Some b) (Some [a]) = (JsonError circularMessage 400, st)"
    if e: "(a, b) \<in> dependsOn st"
  proof -
    have c: "hasCircularDependency st b [a]"
      using e by (simp add: hasCircularDependency_iff)
    from e obtain r d where "findUnique st a = Some r" "d \<in> set (includeDependencies st r)" "b = todoId d"
      by (auto simp: dependsOn_def)
    then obtain i where "findUnique st i = Some d"
      by (auto simp: includeDependencies_def List.map_filter_def)
    then have "findUnique st b = Some d"
      using \<open>b = todoId d\<close> findUnique_todoId by blast
    then show ?thesis using c by (simp add: PATCH_def del: hasCircularDependency.simps)
  qed
  from 1 2 3 show ?thesis by blast
qed

lemma sample_edge: "(1, 2) \<in> dependsOn sampleStore"
  by (simp add: dependsOn_def sample_simps includeDependencies_def List.map_filter_simps)

theorem hasCircularDependency_iff_reachable_witness:
  "(1, 2) \<in> dependsOn sampleStore \<and> hasCircularDependency sampleStore 2 [1] \<and>
   PATCH sampleStore (Some 2) (Some [1]) = (JsonError circularMessage 400, sampleStore) \<and>
   (\<exists>d\<in>set [1]. (d, 2) \<in> (dependsOn sampleStore)\<^sup>*)"
  using hasCircularDependency_iff_reachable[of sampleStore 2 "[1]" 1 2] sample_edge
  by (simp del: hasCircularDependency.simps)

text \<open>
  C7. When the supplied dependency ids would close a cycle through the new task, or a
  supplied dependency is due later than the new task, \<open>POST\<close> answers with status 400
  and a message, and the rows of the store are those from before the request: the row
  created first has been deleted again.
\<close>

theorem POST_rejects_and_rolls_back:
  assumes ok: "storeOk st"
    and deps: "bodyDependencyIds body = Some dependencyIds"
    and created: "createTodo st (bodyTitle body) (map_option noonUTC (bodyDueDate body)) = (todo, st1)"
    and bad: "(\<exists>d\<in>set dependencyIds. (d, todoId todo) \<in> (dependsOn st1)\<^sup>*) \<or>
              (\<exists>day dep due. bodyDueDate body = Some day \<and> dep \<in> set (rows st) \<and>
                 todoId dep \<in> set dependencyIds \<and> dueDate dep = Some due \<and> noonUTC day < due)"
  shows "\<exists>msg. fst (POST st body) = JsonError msg 400 \<and>
           (msg = ''Title is required'' \<or> msg = circularMessage \<or>
            (\<exists>dep\<in>set (rows st1). msg = dueMessage (title dep) ''new'')) \<and>
           rows (snd (POST st body)) = rows st"
proof (cases "bodyTitle body = [] \<or> trim (bodyTitle body) = []")
  case True
  then show ?thesis by (simp add: POST_def)
next
  case False
  have ne: "dependencyIds \<noteq> []" using bad by auto
  have undo: "rows (deleteTodo st1 (todoId todo)) = rows st"
    using ok created by (rule deleteTodo_createTodo)
  show ?thesis
  proof (cases "hasCircularDependency st1 (todoId todo) dependencyIds")
    case True
    then show ?thesis using False deps created ne undo by (simp add: POST_def)
  next
    case nc: False
    then obtain day dep due where d: "bodyDueDate body = Some day" "dep \<in> set (rows st)"
      "todoId dep \<in> set dependencyIds" "dueDate dep = Some due" "noonUTC day < due"
      using bad by (auto simp: hasCircularDependency_iff)
    have "rows st1 = rows st @ [todo]"
      using created by (auto simp: createTodo_def Let_def)
    then have "dep \<in> set (findMany st1 dependencyIds)"
      using d(2,3) by (simp add: findMany_def)
    then obtain dep' where f: "find (dueAfter (noonUTC day)) (findMany st1 dependencyIds) = Some dep'"
      using find_dueAfter d(4,5) by blast
    then have "dep' \<in> set (rows st1)"
      by (auto simp: find_Some_iff findMany_def dest: nth_mem)
    then show ?thesis using False deps created ne undo nc d(1) f by (auto simp: POST_def)
  qed
qed


theorem POST_rejects_and_rolls_back_witness:
  "storeOk sampleStore \<and>
   (\<exists>msg. fst (POST sampleStore lateBody) = JsonError msg 400 \<and>
      (msg = ''Title is required'' \<or> msg = circularMessage \<or>
       (\<exists>dep\<in>set (rows (snd (createTodo sampleStore ''ship'' (Some (noonUTC 19745))))).
          msg = dueMessage (title dep) ''new'')) \<and>
      rows (snd (POST sampleStore lateBody)) = rows sampleStore)"
proof -
  have ok: "storeOk sampleStore"
    by (simp add: storeOk_def sampleStore_def)
  obtain todo st1 where c: "createTodo sampleStore (bodyTitle lateBody)
      (map_option noonUTC (bodyDueDate lateBody)) = (todo, st1)"
    by (cases "createTodo sampleStore (bodyTitle lateBody) (map_option noonUTC (bodyDueDate lateBody))")
  have st1: "st1 = snd (createTodo sampleStore ''ship'' (Some (noonUTC 19745)))"
    using c by (simp add: lateBody_def)
  let ?plan = "\<lparr>todoId = 2, title = ''plan'', dueDate = Some (noonUTC 19750), depIds = []\<rparr>"
  have "bodyDueDate lateBody = Some 19745 \<and> ?plan \<in> set (rows sampleStore) \<and>
      todoId ?plan \<in> set [2] \<and> dueDate ?plan = Some (noonUTC 19750) \<and> noonUTC 19745 < noonUTC 19750"
    by (simp add: lateBody_def sampleStore_def noonUTC_def msPerDay_def)
  then have bad: "\<exists>day dep due. bodyDueDate lateBody = Some day \<and> dep \<in> set (rows sampleStore) \<and>
      todoId dep \<in> set [2] \<and> dueDate dep = Some due \<and> noonUTC day < due"
    by blast
  have d: "bodyDependencyIds lateBody = Some [2]" by (simp add: lateBody_def)
  show ?thesis
    using POST_rejects_and_rolls_back[OF ok d c disjI2[OF bad]] ok unfolding st1 by blast
qed

text \<open>
  C8. \<open>PATCH\<close> validates a proposed dependency set as \<open>POST\<close> does: when the set
  would close a cycle, or one of its members is due later than the task itself, the
  request is rejected with an error response and the store, so also the stored
  dependency set of the task, is unchanged.
\<close>

theorem PATCH_rejects_and_keeps:
  assumes bad: "(\<exists>d\<in>set ids. (d, t) \<in> (dependsOn st)\<^sup>*) \<or>
              (\<exists>todo due dep d. findUnique st t = Some todo \<and> dueDate todo = Some due \<and>
                 dep \<in> set (rows st) \<and> todoId dep \<in> set ids \<and> dueDate dep = Some d \<and> due < d)"
  shows "\<exists>msg code. PATCH st (Some t) (Some ids) = (JsonError msg code, st) \<and>
           ((code = 404 \<and> msg = ''Todo not found'' \<and> findUnique st t = None) \<or>
            (code = 400 \<and> (msg = circularMessage \<or>
               (\<exists>dep\<in>set (rows st). msg = dueMessage (title dep) ''current''))))"
proof -
  have ne: "ids \<noteq> []" using bad by auto
  show ?thesis
  proof (cases "findUnique st t")
    case None
    then show ?thesis using ne by (simp add: PATCH_def)
  next
    case (Some existingTodo)
    show ?thesis
    proof (cases "hasCircularDependency st t ids")
      case True
      then show ?thesis using ne Some by (simp add: PATCH_def)
    next
      case nc: False
      then obtain due dep d where d: "dueDate existingTodo = Some due" "dep \<in> set (rows st)"
        "todoId dep \<in> set ids" "dueDate dep = Some d" "due < d"
        using bad Some by (auto simp: hasCircularDependency_iff)
      have "dep \<in> set (findMany st ids)"
        using d(2,3) by (simp add: findMany_def)
      then obtain dep' where f: "find (dueAfter due) (findMany st ids) = Some dep'"
        using find_dueAfter d(4,5) by blast
      then have "dep' \<in> set (rows st)"
        by (auto simp: find_Some_iff findMany_def dest: nth_mem)
      then show ?thesis using ne Some nc d(1) f by (auto simp: PATCH_def)
    qed
  qed
qed

theorem PATCH_rejects_and_keeps_witness:
  "(\<exists>todo due dep d. findUnique sampleStore 1 = Some todo \<and> dueDate todo = Some due \<and>
      dep \<in> set (rows sampleStore) \<and> todoId dep \<in> set [2] \<and> dueDate dep = Some d \<and> due < d) \<and>
   (\<exists>msg code. PATCH sampleStore (Some 1) (Some [2]) = (JsonError msg code, sampleStore) \<and>
      ((code = 404 \<and> msg = ''Todo not found'' \<and> findUnique sampleStore 1 = None) \<or>
       (code = 400 \<and> (msg = circularMessage \<or>
          (\<exists>dep\<in>set (rows sampleStore). msg = dueMessage (title dep) ''current'')))))"
proof -
  let ?draft = "\<lparr>todoId = 1, title = ''draft'', dueDate = Some (noonUTC 19740), depIds = [2]\<rparr>"
  let ?plan = "\<lparr>todoId = 2, title = ''plan'', dueDate = Some (noonUTC 19750), depIds = []\<rparr>"
  have "findUnique sampleStore 1 = Some ?draft \<and> dueDate ?draft = Some (noonUTC 19740) \<and>
      ?plan \<in> set (rows sampleStore) \<and> todoId ?plan \<in> set [2] \<and>
      dueDate ?plan = Some (noonUTC 19750) \<and> noonUTC 19740 < noonUTC 19750"
    by (simp add: sample_simps) (simp add: sampleStore_def noonUTC_def msPerDay_def)
  then have bad: "\<exists>todo due dep d. findUnique sampleStore 1 = Some todo \<and> dueDate todo = Some due \<and>
      dep \<in> set (rows sampleStore) \<and> todoId dep \<in> set [2] \<and> dueDate dep = Some d \<and> due < d"
    by blast
  show ?thesis
    using PATCH_rejects_and_keeps[OF disjI2[OF bad]] bad by blast
qed

text \<open>
  The earlier revision rejects a cycle in the same way, and accepts a dependency that
  is due later than the task: in the sample store task 2 is due after task 1.
\<close>

lemma PATCH_earlier_cycle:
  assumes "\<exists>d\<in>set ids. (d, t) \<in> (dependsOn st)\<^sup>*"
  shows "\<exists>msg code. PATCH_earlier st (Some t) (Some ids) = (JsonError msg code, st)"
proof -
  have "ids \<noteq> []" using assms by auto
  moreover have "hasCircularDependency st t ids"
    using assms by (simp add: hasCircularDependency_iff)
  ultimately show ?thesis
    by (cases "findUnique st t") (simp_all add: PATCH_earlier_def)
qed

lemma PATCH_earlier_accepts_later_due:
  "PATCH_earlier sampleStore (Some 1) (Some [2]) = (JsonTodo (findUnique sampleStore 1) 200, sampleStore)"
proof -
  have c: "\<not> hasCircularDependency sampleStore 1 [2]"
    by (simp add: hasPath.simps[of sampleStore] sample_simps includeDependencies_def
        List.map_filter_simps)
  have s: "setDependencies sampleStore 1 [2] = Some sampleStore"
    by (simp add: setDependencies_def sample_simps) (simp add: sampleStore_def)
  show ?thesis
    by (simp add: PATCH_earlier_def sample_simps c PATCH_update_def s
        del: hasCircularDependency.simps)
qed

section \<open>The task list view (app/page.tsx)\<close>

text \<open>\<open>TodoWithDependencies\<close>: a task as the list view receives it, with its dependency rows resolved.\<close>

record todoWithDependencies = todo +
  dependencies :: "todo list"

subsection \<open>Earliest start dates\<close>










definition mkTodo :: "int \<Rightarrow> int option \<Rightarrow> todo" where
  "mkTodo i due = \<lparr>todoId = i, title = [], dueDate = due\<rparr>"

definition mkTask :: "int \<Rightarrow> int option \<Rightarrow> todo list \<Rightarrow> todoWithDependencies" where
  "mkTask i due deps = \<lparr>todoId = i, title = [], dueDate = due, dependencies = deps\<rparr>"

text \<open>Scenario A: task 1 due 2024-01-10, task 2 depends on it and is due 2024-01-20.\<close>

definition scenarioA :: "todoWithDependencies list" where
  "scenarioA =
     [mkTask 1 (Some (noonUTC 19732)) [],
      mkTask 2 (Some (noonUTC 19742)) [mkTodo 1 (Some (noonUTC 19732))]]"


















subsection \<open>The critical path\<close>

text \<open>
  A JavaScript \<open>Map\<close> keeps its keys in insertion order: an association list, with
  \<open>AList.update\<close> for \<open>set\<close> (an existing key keeps its place, a new one goes last)
  and \<open>map_of\<close> for \<open>get\<close>.
\<close>

type_synonym ('k, 'v) jsMap = "('k \<times> 'v) list"

text \<open>\<open>v || d\<close> on a number that may be \<open>undefined\<close>: \<open>0\<close> is falsy as well.\<close>

definition orElse :: "int option \<Rightarrow> int \<Rightarrow> int" where
  "orElse v d = (case v of None \<Rightarrow> d | Some n \<Rightarrow> if n = 0 then d else n)"

text \<open>The first \<open>forEach\<close>: every task gets an empty list of dependents and in-degree 0.\<close>

definition initStep :: "todoWithDependencies \<Rightarrow> (int, int list) jsMap \<times> (int, int) jsMap
                          \<Rightarrow> (int, int list) jsMap \<times> (int, int) jsMap" where
  "initStep todo g =
     (case g of (dependents, inDegree) \<Rightarrow>
        (AList.update (todoId todo) [] dependents, AList.update (todoId todo) 0 inDegree))"

definition initMaps :: "todoWithDependencies list \<Rightarrow> (int, int list) jsMap \<times> (int, int) jsMap" where
  "initMaps todos = fold initStep todos ([], [])"

text \<open>
  The body of the inner \<open>forEach\<close> of the second pass, for the task \<open>tid\<close> and one of
  its dependencies: a dependency that is not a task of the list is skipped.
\<close>

definition addEdge :: "int \<Rightarrow> todo \<Rightarrow> (int, int list) jsMap \<times> (int, int) jsMap
                        \<Rightarrow> (int, int list) jsMap \<times> (int, int) jsMap" where
  "addEdge tid dep g =
     (case g of (dependents, inDegree) \<Rightarrow>
        (case map_of dependents (todoId dep) of
           None \<Rightarrow> (dependents, inDegree)
         | Some ds \<Rightarrow> (AList.update (todoId dep) (ds @ [tid]) dependents,
                      AList.update tid (orElse (map_of inDegree tid) 0 + 1) inDegree)))"

definition buildGraph :: "todoWithDependencies list \<Rightarrow> (int, int list) jsMap \<times> (int, int) jsMap" where
  "buildGraph todos =
     fold (\<lambda>todo. fold (addEdge (todoId todo)) (dependencies todo)) todos (initMaps todos)"

text \<open>The variables of the topological pass: \<open>queue\<close>, \<open>levels\<close>, \<open>parent\<close> and \<open>inDegree\<close>.\<close>

record kahnState =
  queue :: "int list"
  levels :: "(int, int) jsMap"
  parent :: "(int, int option) jsMap"
  inDegree :: "(int, int) jsMap"

text \<open>\<open>inDegree.forEach\<close>: the tasks with in-degree 0 start the queue at level 0 with no parent.\<close>

definition seed :: "int \<times> int \<Rightarrow> kahnState \<Rightarrow> kahnState" where
  "seed e st =
     (case e of (taskId, degree) \<Rightarrow>
        if degree = 0
        then st\<lparr>queue := queue st @ [taskId],
                levels := AList.update taskId 0 (levels st),
                parent := AList.update taskId None (parent st)\<rparr>
        else st)"

definition startState :: "(int, int) jsMap \<Rightarrow> kahnState" where
  "startState deg = fold seed deg \<lparr>queue = [], levels = [], parent = [], inDegree = deg\<rparr>"

text \<open>
  The body of the \<open>forEach\<close> over the dependents of \<open>current\<close>. Every dependent is a
  key of \<open>inDegree\<close> (lemma \<open>buildGraph_facts\<close>), which is what the \<open>!\<close> of
  \<open>inDegree.get(dependent)!\<close> asserts; for a missing key the difference would be
  \<open>NaN\<close>, which is never \<open>=== 0\<close>, so nothing is queued.
\<close>

definition relax :: "int \<Rightarrow> int \<Rightarrow> int \<Rightarrow> kahnState \<Rightarrow> kahnState" where
  "relax current currentLevel dependent st =
     (let newLevel = currentLevel + 1;
          existingLevel = orElse (map_of (levels st) dependent) (- 1);
          st1 = (if newLevel > existingLevel
                 then st\<lparr>levels := AList.update dependent newLevel (levels st),
                         parent := AList.update dependent (Some current) (parent st)\<rparr>
                 else st)
      in case map_of (inDegree st1) dependent of
           None \<Rightarrow> st1
         | Some d \<Rightarrow>
             (let st2 = st1\<lparr>inDegree := AList.update dependent (d - 1) (inDegree st1)\<rparr>
              in if d - 1 = 0 then st2\<lparr>queue := queue st2 @ [dependent]\<rparr> else st2))"

text \<open>\<open>dependents.get(current) || []\<close>\<close>

definition dependentsOf :: "(int, int list) jsMap \<Rightarrow> int \<Rightarrow> int list" where
  "dependentsOf dependents current =
     (case map_of dependents current of None \<Rightarrow> [] | Some ds \<Rightarrow> ds)"

text \<open>The number of keys whose in-degree is still positive: with the length of the queue, what the \<open>while\<close> loop uses up.\<close>

definition positive :: "(int, int) jsMap \<Rightarrow> nat" where
  "positive deg = length (filter (\<lambda>e. 1 \<le> snd e) deg)"

function kahn_loop :: "(int, int list) jsMap \<Rightarrow> kahnState \<Rightarrow> kahnState" where
  "kahn_loop dependents st =
     (case queue st of
        [] \<Rightarrow> st
      | current # rest \<Rightarrow>
          kahn_loop dependents
            (fold (relax current (orElse (map_of (levels st) current) 0))
                  (dependentsOf dependents current) (st\<lparr>queue := rest\<rparr>)))"
  by pat_completeness auto

lemma positive_update_dec:
  "map_of deg k = Some d \<Longrightarrow>
     positive (AList.update k (d - 1) deg) + (if d = 1 then 1 else 0) = positive deg"
  by (induction deg) (auto simp: positive_def)

lemma relax_measure:
  "length (queue (relax c l x st)) + positive (inDegree (relax c l x st))
     = length (queue st) + positive (inDegree st)"
proof (cases "map_of (inDegree st) x")
  case None
  then show ?thesis by (simp add: relax_def Let_def)
next
  case (Some d)
  then show ?thesis
    using positive_update_dec[of "inDegree st" x d]
    by (simp add: relax_def Let_def split: if_splits)
qed

lemma fold_relax_measure:
  "length (queue (fold (relax c l) xs st)) + positive (inDegree (fold (relax c l) xs st))
     = length (queue st) + positive (inDegree st)"
  by (induction xs arbitrary: st) (simp_all add: relax_measure)

termination kahn_loop
proof (relation "measure (\<lambda>(dependents, st). length (queue st) + positive (inDegree st))", goal_cases)
  case 1
  then show ?case by simp
next
  case (2 dependents st current rest)
  then show ?case by (simp add: fold_relax_measure)
qed

declare kahn_loop.simps [simp del]

text \<open>The callback of \<open>levels.forEach\<close> that looks for the end of the longest path.\<close>

definition scan :: "int \<times> int \<Rightarrow> int \<times> int option \<Rightarrow> int \<times> int option" where
  "scan e acc =
     (case e of (taskId, level) \<Rightarrow>
        case acc of (maxLevel, endTask) \<Rightarrow>
          if level > maxLevel then (level, Some taskId) else (maxLevel, endTask))"

text \<open>
  The \<open>for\<close> loop that walks the \<open>parent\<close> links back from the end task. It stops at
  \<open>null\<close> only; at a task without an entry \<open>parent.get\<close> is \<open>undefined\<close> and the loop
  goes on with it for ever. Not returning is \<open>None\<close>.
\<close>

partial_function (option) reconstruct ::
  "(int, int option) jsMap \<Rightarrow> int option \<Rightarrow> int list \<Rightarrow> int list option" where
  "reconstruct par current criticalPath =
     (case current of
        None \<Rightarrow> Some criticalPath
      | Some c \<Rightarrow>
          (case map_of par c of
             None \<Rightarrow> None
           | Some p \<Rightarrow> reconstruct par p (c # criticalPath)))"

record criticalPathResult =
  criticalPath :: "int list"
  pathLength :: int
  nodeLevels :: "int \<rightharpoonup> int"

text \<open>The state when the \<open>while\<close> loop is left.\<close>

definition kahnFinal :: "todoWithDependencies list \<Rightarrow> kahnState" where
  "kahnFinal todos =
     (case buildGraph todos of (dependents, deg) \<Rightarrow> kahn_loop dependents (startState deg))"

definition calculateCriticalPath :: "todoWithDependencies list \<Rightarrow> criticalPathResult option" where
  "calculateCriticalPath todos =
     (if todos = [] then Some \<lparr>criticalPath = [], pathLength = 0, nodeLevels = Map.empty\<rparr>
      else
        let st = kahnFinal todos
        in case fold scan (levels st) (0, None) of
             (maxLevel, endTask) \<Rightarrow>
               (case reconstruct (parent st) endTask [] of
                  None \<Rightarrow> None
                | Some path \<Rightarrow>
                    Some \<lparr>criticalPath = path, pathLength = maxLevel + 1,
                          nodeLevels = map_of (levels st)\<rparr>))"

lemma reconstruct_None [simp]: "reconstruct par None path = Some path"
  by (subst reconstruct.simps) simp

lemma reconstruct_Some [simp]:
  "reconstruct par (Some c) path =
     (case map_of par c of None \<Rightarrow> None | Some p \<Rightarrow> reconstruct par p (c # path))"
  by (subst reconstruct.simps) simp

definition task :: "int \<Rightarrow> int list \<Rightarrow> todoWithDependencies" where
  "task i ds = mkTask i None (map (\<lambda>d. mkTodo d None) ds)"

lemmas run_defs = calculateCriticalPath_def kahnFinal_def task_def mkTask_def mkTodo_def buildGraph_def
  initMaps_def initStep_def addEdge_def orElse_def startState_def seed_def relax_def dependentsOf_def
  scan_def kahn_loop.simps Let_def

subsection \<open>The dependency graph of a task list\<close>

definition taskIds :: "todoWithDependencies list \<Rightarrow> int set" where
  "taskIds todos = todoId ` set todos"

text \<open>
  \<open>(c, x)\<close> is an edge when the task \<open>x\<close> of the list names \<open>c\<close>, a task of the list
  too, among its dependencies: the direction in which levels grow.
\<close>

definition depEdges :: "todoWithDependencies list \<Rightarrow> (int \<times> int) set" where
  "depEdges todos =
     {(c, x). c \<in> taskIds todos \<and>
              (\<exists>t\<in>set todos. todoId t = x \<and> c \<in> todoId ` set (dependencies t))}"

text \<open>The dependents of \<open>c\<close> in the order in which the second pass meets them.\<close>

definition dependentsList :: "todoWithDependencies list \<Rightarrow> int \<Rightarrow> int list" where
  "dependentsList todos c =
     concat (map (\<lambda>t. map (\<lambda>_. todoId t) (filter (\<lambda>d. todoId d = c) (dependencies t))) todos)"

text \<open>
  The in-edges of \<open>x\<close> that are still to be worked off when the tasks \<open>done\<close> have
  left the queue, counted with their multiplicity.
\<close>

definition pendingIn :: "(int, int list) jsMap \<Rightarrow> int list \<Rightarrow> int \<Rightarrow> nat" where
  "pendingIn D done x =
     sum_list (map (\<lambda>e. if fst e \<in> set done then 0 else count_list (snd e) x) D)"

definition graphOk :: "int set \<Rightarrow> (int, int list) jsMap \<times> (int, int) jsMap \<Rightarrow> bool" where
  "graphOk K g \<longleftrightarrow>
     (case g of (D, I) \<Rightarrow>
        distinct (map fst D) \<and> fst ` set D = K \<and> distinct (map fst I) \<and> fst ` set I = K \<and>
        (\<forall>x\<in>K. map_of I x = Some (int (pendingIn D [] x))) \<and>
        (\<forall>c ds. map_of D c = Some ds \<longrightarrow> set ds \<subseteq> K))"

lemma set_dependentsList:
  "set (dependentsList todos c) =
     {x. \<exists>t\<in>set todos. todoId t = x \<and> c \<in> todoId ` set (dependencies t)}"
  by (auto simp: dependentsList_def)

lemma pendingIn_update:
  "distinct (map fst D) \<Longrightarrow> map_of D k = Some ds \<Longrightarrow>
     pendingIn (AList.update k (ds @ [t]) D) done x
       = pendingIn D done x + (if k \<notin> set done \<and> x = t then 1 else 0)"
proof (induction D)
  case Nil
  then show ?case by simp
next
  case (Cons e D)
  show ?case
  proof (cases "fst e = k")
    case True
    then have "snd e = ds" using Cons.prems(2) by (cases e) simp
    then show ?thesis using True by (simp add: pendingIn_def)
  next
    case False
    then have "map_of D k = Some ds" using Cons.prems(2) by (cases e) simp
    then show ?thesis using False Cons by (simp add: pendingIn_def)
  qed
qed

lemma pendingIn_absent:
  "c \<notin> fst ` set D \<Longrightarrow> pendingIn D (done @ [c]) x = pendingIn D done x"
  by (induction D) (auto simp: pendingIn_def)

lemma pendingIn_dequeue:
  "distinct (map fst D) \<Longrightarrow> map_of D c = Some ds \<Longrightarrow> c \<notin> set done \<Longrightarrow>
     pendingIn D done x = pendingIn D (done @ [c]) x + count_list ds x"
proof (induction D)
  case Nil
  then show ?case by simp
next
  case (Cons e D)
  have split: "pendingIn (e # D) dn x
      = (if fst e \<in> set dn then 0 else count_list (snd e) x) + pendingIn D dn x" for dn
    by (simp add: pendingIn_def)
  show ?case
  proof (cases "fst e = c")
    case True
    then have sn: "snd e = ds" using Cons.prems(2) by (cases e) simp
    have "c \<notin> fst ` set D" using Cons.prems(1) True by auto
    then have "pendingIn D (done @ [c]) x = pendingIn D done x" by (rule pendingIn_absent)
    then show ?thesis using True sn Cons.prems(3) by (simp add: split)
  next
    case False
    then have "map_of D c = Some ds" using Cons.prems(2) by (cases e) simp
    then have "pendingIn D done x = pendingIn D (done @ [c]) x + count_list ds x"
      using Cons by simp
    then show ?thesis using False by (simp add: split)
  qed
qed

lemma pendingIn_pos:
  "0 < pendingIn D done x \<longleftrightarrow> (\<exists>e\<in>set D. fst e \<notin> set done \<and> x \<in> set (snd e))"
proof -
  have "pendingIn D done x = 0 \<longleftrightarrow> (\<forall>e\<in>set D. fst e \<in> set done \<or> x \<notin> set (snd e))"
    by (induction D) (auto simp: pendingIn_def count_list_0_iff)
  then show ?thesis by auto
qed

lemma pendingIn_pos_dependentsOf:
  assumes "distinct (map fst D)"
  shows "0 < pendingIn D done x \<longleftrightarrow>
           (\<exists>c\<in>fst ` set D. c \<notin> set done \<and> x \<in> set (dependentsOf D c))"
proof -
  have d: "dependentsOf D (fst e) = snd e" if "e \<in> set D" for e
  proof -
    have "map_of D (fst e) = Some (snd e)"
      using that assms by (simp add: map_of_eq_Some_iff)
    then show ?thesis by (simp add: dependentsOf_def)
  qed
  show ?thesis
  proof
    assume "0 < pendingIn D done x"
    then obtain e where e: "e \<in> set D" "fst e \<notin> set done" "x \<in> set (snd e)"
      unfolding pendingIn_pos by blast
    have "fst e \<in> fst ` set D" using e(1) by (rule imageI)
    moreover have "x \<in> set (dependentsOf D (fst e))" using e(1,3) by (simp add: d)
    ultimately show "\<exists>c\<in>fst ` set D. c \<notin> set done \<and> x \<in> set (dependentsOf D c)"
      using e(2) by blast
  next
    assume "\<exists>c\<in>fst ` set D. c \<notin> set done \<and> x \<in> set (dependentsOf D c)"
    then obtain c where c: "c \<in> fst ` set D" "c \<notin> set done" "x \<in> set (dependentsOf D c)"
      by blast
    from c(1) obtain e where e: "e \<in> set D" "c = fst e" by (rule imageE)
    have "x \<in> set (snd e)" using c(3) e by (simp add: d)
    then have "\<exists>e\<in>set D. fst e \<notin> set done \<and> x \<in> set (snd e)"
      using e c(2) by blast
    then show "0 < pendingIn D done x"
      unfolding pendingIn_pos .
  qed
qed

lemma fold_initStep:
  "fold initStep todos (D, I) = (D', I') \<Longrightarrow>
     map_of D' = (\<lambda>k. if k \<in> todoId ` set todos then Some [] else map_of D k) \<and>
     map_of I' = (\<lambda>k. if k \<in> todoId ` set todos then Some 0 else map_of I k) \<and>
     (distinct (map fst D) \<longrightarrow> distinct (map fst D')) \<and>
     (distinct (map fst I) \<longrightarrow> distinct (map fst I')) \<and>
     fst ` set D' = fst ` set D \<union> todoId ` set todos \<and>
     fst ` set I' = fst ` set I \<union> todoId ` set todos"
proof (induction todos arbitrary: D I)
  case Nil
  then show ?case by simp
next
  case (Cons t todos)
  let ?D = "AList.update (todoId t) [] D"
  let ?I = "AList.update (todoId t) 0 I"
  have "initStep t (D, I) = (?D, ?I)" by (simp add: initStep_def)
  then have "fold initStep todos (?D, ?I) = (D', I')" using Cons.prems by simp
  from Cons.IH[OF this] show ?case
    by (auto simp: update_conv' distinct_update dom_update)
qed

lemma pendingIn_empty_lists:
  "(\<And>e. e \<in> set D \<Longrightarrow> snd e = []) \<Longrightarrow> pendingIn D done x = 0"
proof (induction D)
  case Nil
  then show ?case by (simp add: pendingIn_def)
next
  case (Cons a D)
  have "snd a = []" by (rule Cons.prems) simp
  moreover have "pendingIn D done x = 0" by (rule Cons.IH) (simp add: Cons.prems)
  ultimately show ?case by (simp add: pendingIn_def)
qed

lemma initMaps_graphOk:
  "graphOk (taskIds todos) (initMaps todos)"
  "dependentsOf (fst (initMaps todos)) c = []"
proof -
  obtain D I where g: "initMaps todos = (D, I)" by (cases "initMaps todos")
  then have f: "fold initStep todos ([], []) = (D, I)" by (simp add: initMaps_def)
  have mD: "map_of D = (\<lambda>k. if k \<in> todoId ` set todos then Some [] else None)"
    and mI: "map_of I = (\<lambda>k. if k \<in> todoId ` set todos then Some 0 else None)"
    and dD: "distinct (map fst D)" and dI: "distinct (map fst I)"
    and kD: "fst ` set D = taskIds todos" and kI: "fst ` set I = taskIds todos"
    using fold_initStep[OF f] by (simp_all add: taskIds_def fun_eq_iff)
  have emp: "snd e = []" if e: "e \<in> set D" for e
  proof -
    note e
    then have "map_of D (fst e) = Some (snd e)" using dD by (simp add: map_of_eq_Some_iff)
    then show "snd e = []" by (simp add: mD split: if_splits)
  qed
  have "\<forall>x\<in>taskIds todos. map_of I x = Some (int (pendingIn D [] x))"
    using pendingIn_empty_lists[OF emp] by (simp add: mI taskIds_def)
  moreover have "\<forall>c ds. map_of D c = Some ds \<longrightarrow> set ds \<subseteq> taskIds todos"
    by (simp add: mD split: if_splits)
  ultimately show "graphOk (taskIds todos) (initMaps todos)"
    using dD dI kD kI by (simp add: g graphOk_def)
  show "dependentsOf (fst (initMaps todos)) c = []"
    by (simp add: g dependentsOf_def mD)
qed

lemma orElse_nat: "orElse (Some (int n)) 0 = int n"
  by (simp add: orElse_def)

lemma addEdge_graphOk:
  assumes "graphOk K g" and "tid \<in> K"
  shows "graphOk K (addEdge tid dep g)"
proof -
  obtain D I where g: "g = (D, I)" by (cases g)
  have dD: "distinct (map fst D)" and kD: "fst ` set D = K"
    and dI: "distinct (map fst I)" and kI: "fst ` set I = K"
    and deg: "\<And>x. x \<in> K \<Longrightarrow> map_of I x = Some (int (pendingIn D [] x))"
    and sub: "\<And>c ds. map_of D c = Some ds \<Longrightarrow> set ds \<subseteq> K"
    using assms(1) unfolding g graphOk_def by auto
  show ?thesis
  proof (cases "map_of D (todoId dep)")
    case None
    then show ?thesis using assms(1) by (simp add: g addEdge_def)
  next
    case (Some ds)
    let ?D = "AList.update (todoId dep) (ds @ [tid]) D"
    let ?I = "AList.update tid (orElse (map_of I tid) 0 + 1) I"
    have r: "addEdge tid dep g = (?D, ?I)" by (simp add: g addEdge_def Some)
    have inK: "todoId dep \<in> K"
      using Some kD by (metis domI dom_map_of_conv_image_fst)
    have tI: "map_of I tid = Some (int (pendingIn D [] tid))"
      using deg assms(2) by blast
    have 1: "distinct (map fst ?D)" "distinct (map fst ?I)"
      using dD dI by (simp_all add: distinct_update)
    have 2: "fst ` set ?D = K" "fst ` set ?I = K"
      using kD kI inK assms(2) by (auto simp: dom_update)
    have 3: "\<forall>x\<in>K. map_of ?I x = Some (int (pendingIn ?D [] x))"
    proof
      fix x assume "x \<in> K"
      then have "map_of I x = Some (int (pendingIn D [] x))" by (rule deg)
      moreover have "pendingIn ?D [] x = pendingIn D [] x + (if x = tid then 1 else 0)"
        using pendingIn_update[OF dD Some, of tid "[]" x] by simp
      ultimately show "map_of ?I x = Some (int (pendingIn ?D [] x))"
        using tI by (simp add: update_conv' orElse_nat)
    qed
    have 4: "\<forall>c ds'. map_of ?D c = Some ds' \<longrightarrow> set ds' \<subseteq> K"
    proof (intro allI impI)
      fix c ds' assume "map_of ?D c = Some ds'"
      then have "(c = todoId dep \<and> ds' = ds @ [tid]) \<or> map_of D c = Some ds'"
        by (auto simp: update_conv' split: if_splits)
      moreover have "set ds \<subseteq> K" using Some by (rule sub)
      ultimately show "set ds' \<subseteq> K" using sub assms(2) by auto
    qed
    show ?thesis unfolding r graphOk_def using 1 2 3 4 by simp
  qed
qed

lemma addEdge_dependentsOf:
  "dependentsOf (fst (addEdge tid dep g)) c =
     dependentsOf (fst g) c @
       (if todoId dep = c \<and> c \<in> fst ` set (fst g) then [tid] else [])"
proof -
  obtain D I where g: "g = (D, I)" by (cases g)
  show ?thesis
  proof (cases "map_of D (todoId dep)")
    case None
    then have "todoId dep \<notin> fst ` set D" by (simp add: map_of_eq_None_iff)
    then show ?thesis using None by (auto simp: g addEdge_def)
  next
    case (Some ds)
    then have "todoId dep \<in> fst ` set D" by (metis domI dom_map_of_conv_image_fst)
    then show ?thesis using Some by (auto simp: g addEdge_def dependentsOf_def update_conv')
  qed
qed

lemma fold_addEdge:
  assumes "graphOk K g" and "tid \<in> K"
  shows "graphOk K (fold (addEdge tid) deps g)"
    and "c \<in> K \<Longrightarrow> dependentsOf (fst (fold (addEdge tid) deps g)) c =
           dependentsOf (fst g) c @ map (\<lambda>_. tid) (filter (\<lambda>d. todoId d = c) deps)"
  using assms(1)
proof (induction deps arbitrary: g)
  case Nil
  {
    case 1 then show ?case by simp
  next
    case 2 then show ?case by simp
  }
next
  case (Cons d deps)
  {
    case 1
    then have "graphOk K (addEdge tid d g)" using assms(2) by (rule addEdge_graphOk)
    then show ?case using Cons.IH(1) by simp
  next
    case 2
    have ok: "graphOk K (addEdge tid d g)" using 2(2) assms(2) by (rule addEdge_graphOk)
    have k: "fst ` set (fst g) = K" using 2(2) by (cases g) (simp add: graphOk_def)
    show ?case
      using Cons.IH(2)[OF 2(1) ok] 2(1) k by (simp add: addEdge_dependentsOf)
  }
qed

lemma fold_todos_addEdge:
  assumes "graphOk K g" and "todoId ` set todos \<subseteq> K"
  shows "graphOk K (fold (\<lambda>todo. fold (addEdge (todoId todo)) (dependencies todo)) todos g)"
    and "c \<in> K \<Longrightarrow>
           dependentsOf (fst (fold (\<lambda>todo. fold (addEdge (todoId todo)) (dependencies todo)) todos g)) c
             = dependentsOf (fst g) c @ dependentsList todos c"
  using assms
proof (induction todos arbitrary: g)
  case Nil
  {
    case 1 then show ?case by simp
  next
    case 2 then show ?case by (simp add: dependentsList_def)
  }
next
  case (Cons t todos)
  {
    case 1
    then have "graphOk K (fold (addEdge (todoId t)) (dependencies t) g)"
      by (intro fold_addEdge(1)) auto
    then show ?case using Cons.IH(1) 1 by simp
  next
    case 2
    have tk: "todoId t \<in> K" using 2(3) by simp
    have ok: "graphOk K (fold (addEdge (todoId t)) (dependencies t) g)"
      using 2(2) tk by (rule fold_addEdge(1))
    have "dependentsList (t # todos) c =
            map (\<lambda>_. todoId t) (filter (\<lambda>d. todoId d = c) (dependencies t)) @ dependentsList todos c"
      by (simp add: dependentsList_def)
    then show ?case
      using Cons.IH(2)[OF 2(1) ok] 2(3) fold_addEdge(2)[OF 2(2) tk 2(1)] by simp
  }
qed

lemma buildGraph_facts:
  assumes "buildGraph todos = (D, I)"
  shows "graphOk (taskIds todos) (D, I)"
    and "x \<in> set (dependentsOf D c) \<longleftrightarrow> (c, x) \<in> depEdges todos"
proof -
  have ok: "graphOk (taskIds todos) (buildGraph todos)"
    unfolding buildGraph_def
    by (rule fold_todos_addEdge(1)[OF initMaps_graphOk(1)]) (simp add: taskIds_def)
  then show g: "graphOk (taskIds todos) (D, I)" using assms by simp
  show "x \<in> set (dependentsOf D c) \<longleftrightarrow> (c, x) \<in> depEdges todos"
  proof (cases "c \<in> taskIds todos")
    case True
    have "dependentsOf (fst (buildGraph todos)) c = dependentsList todos c"
      unfolding buildGraph_def
      using fold_todos_addEdge(2)[OF initMaps_graphOk(1) _ True, of todos]
      by (simp add: taskIds_def initMaps_graphOk(2))
    then show ?thesis using True assms by (simp add: set_dependentsList depEdges_def)
  next
    case False
    then have "map_of D c = None"
      using g by (simp add: graphOk_def map_of_eq_None_iff)
    then show ?thesis using False by (simp add: dependentsOf_def depEdges_def)
  qed
qed

subsection \<open>What one step of the inner loop changes\<close>

lemma relax_inDegree:
  "map_of (inDegree st) x = Some d \<Longrightarrow>
     inDegree (relax c l x st) = AList.update x (d - 1) (inDegree st)"
  by (simp add: relax_def Let_def)

lemma relax_queue:
  "map_of (inDegree st) x = Some d \<Longrightarrow>
     queue (relax c l x st) = (if d = 1 then queue st @ [x] else queue st)"
  by (simp add: relax_def Let_def)

lemma relax_queue_subset: "set (queue (relax c l x st)) \<subseteq> insert x (set (queue st))"
  by (auto simp: relax_def Let_def split: option.splits if_splits)

lemma relax_queue_grows: "set (queue st) \<subseteq> set (queue (relax c l x st))"
  by (auto simp: relax_def Let_def split: option.splits if_splits)

lemma relax_levels:
  "levels (relax c l x st) =
     (if l + 1 > orElse (map_of (levels st) x) (- 1)
      then AList.update x (l + 1) (levels st) else levels st)"
  by (simp add: relax_def Let_def split: option.splits)

lemma relax_parent:
  "parent (relax c l x st) =
     (if l + 1 > orElse (map_of (levels st) x) (- 1)
      then AList.update x (Some c) (parent st) else parent st)"
  by (simp add: relax_def Let_def split: option.splits)

lemma orElse_minus_one_le:
  "0 \<le> l \<Longrightarrow> \<not> l + 1 > orElse v (- 1) \<Longrightarrow> \<exists>n. v = Some n \<and> l + 1 \<le> n"
  by (cases v) (auto simp: orElse_def split: if_splits)

lemma orElse_minus_one_gt:
  "l + 1 > orElse (Some n) (- 1) \<Longrightarrow> 0 \<le> n \<Longrightarrow> 0 \<le> l \<Longrightarrow> n < l + 1"
  by (auto simp: orElse_def split: if_splits)

subsection \<open>Invariants of the topological pass\<close>

text \<open>
  \<open>done\<close> lists the tasks taken from the queue so far, the last of them being worked
  on while \<open>rest\<close>, the dependents of it that the inner loop has still to visit, is not
  empty.

  The in-degree of a task is the number of its in-edges still to be worked off, and the
  tasks that were ever queued are those for which it is 0.
\<close>

definition countInv :: "(int, int list) jsMap \<Rightarrow> int set \<Rightarrow> int list \<Rightarrow> int list \<Rightarrow> kahnState \<Rightarrow> bool" where
  "countInv D K done rest st \<longleftrightarrow>
     distinct (done @ queue st) \<and> set (done @ queue st) \<subseteq> K \<and>
     (\<forall>x\<in>K. map_of (inDegree st) x = Some (int (pendingIn D done x + count_list rest x))) \<and>
     (\<forall>x\<in>K. x \<in> set (done @ queue st) \<longleftrightarrow> pendingIn D done x + count_list rest x = 0)"

text \<open>
  A recorded level is not negative. It is 0 with no parent, for a task that started
  the queue, or one more than the level of the recorded parent, a task that has left
  the queue and has the task among its dependents.
\<close>

definition linked :: "(int, int list) jsMap \<Rightarrow> int list \<Rightarrow> kahnState \<Rightarrow> int \<Rightarrow> int \<Rightarrow> bool" where
  "linked D done st x l \<longleftrightarrow>
     (case map_of (parent st) x of
        None \<Rightarrow> False
      | Some None \<Rightarrow> l = 0 \<and> x \<in> set (done @ queue st)
      | Some (Some p) \<Rightarrow>
          p \<in> set done \<and> x \<in> set (dependentsOf D p) \<and> map_of (levels st) p = Some (l - 1))"

definition levelInv :: "(int, int list) jsMap \<Rightarrow> int set \<Rightarrow> int list \<Rightarrow> kahnState \<Rightarrow> bool" where
  "levelInv D K done st \<longleftrightarrow>
     distinct (map fst (levels st)) \<and>
     (\<forall>x l. map_of (levels st) x = Some l \<longrightarrow> 0 \<le> l \<and> x \<in> K \<and> linked D done st x l) \<and>
     (\<forall>x\<in>set (done @ queue st). map_of (levels st) x \<noteq> None)"

text \<open>Every edge worked off so far leads to a level above the level of its source.\<close>

definition relaxedInv :: "(int, int list) jsMap \<Rightarrow> int list \<Rightarrow> int list \<Rightarrow> kahnState \<Rightarrow> bool" where
  "relaxedInv D done rest st \<longleftrightarrow>
     (\<forall>c\<in>set done. \<forall>x\<in>set (dependentsOf D c). (c = last done \<longrightarrow> x \<notin> set rest) \<longrightarrow>
        (\<exists>lc lx. map_of (levels st) c = Some lc \<and> map_of (levels st) x = Some lx \<and> lc + 1 \<le> lx))"

lemma countInvD:
  assumes "countInv D K done rest st"
  shows "distinct (done @ queue st)" and "set (done @ queue st) \<subseteq> K"
    and "\<And>x. x \<in> K \<Longrightarrow> map_of (inDegree st) x = Some (int (pendingIn D done x + count_list rest x))"
    and "\<And>x. x \<in> K \<Longrightarrow> x \<in> set (done @ queue st) \<longleftrightarrow> pendingIn D done x + count_list rest x = 0"
proof -
  from assms have a: "distinct (done @ queue st) \<and> set (done @ queue st) \<subseteq> K \<and>
     (\<forall>x\<in>K. map_of (inDegree st) x = Some (int (pendingIn D done x + count_list rest x))) \<and>
     (\<forall>x\<in>K. x \<in> set (done @ queue st) \<longleftrightarrow> pendingIn D done x + count_list rest x = 0)"
    unfolding countInv_def .
  from a show "distinct (done @ queue st)" by (elim conjE)
  from a show "set (done @ queue st) \<subseteq> K" by (elim conjE)
  from a have "\<forall>x\<in>K. map_of (inDegree st) x = Some (int (pendingIn D done x + count_list rest x))"
    by (elim conjE)
  then show "\<And>x. x \<in> K \<Longrightarrow> map_of (inDegree st) x = Some (int (pendingIn D done x + count_list rest x))"
    by (rule bspec)
  from a have "\<forall>x\<in>K. x \<in> set (done @ queue st) \<longleftrightarrow> pendingIn D done x + count_list rest x = 0"
    by (elim conjE)
  then show "\<And>x. x \<in> K \<Longrightarrow> x \<in> set (done @ queue st) \<longleftrightarrow> pendingIn D done x + count_list rest x = 0"
    by (rule bspec)
qed

lemma countInv_head_fresh:
  assumes "countInv D K done (x # rest) st" and "x \<in> K"
  shows "x \<notin> set (done @ queue st)"
proof -
  have "pendingIn D done x + count_list (x # rest) x \<noteq> 0" by simp
  then show ?thesis using countInvD(4)[OF assms] by simp
qed


lemma countInvI:
  assumes "distinct (done @ queue st)" and "set (done @ queue st) \<subseteq> K"
    and "\<And>x. x \<in> K \<Longrightarrow> map_of (inDegree st) x = Some (int (pendingIn D done x + count_list rest x))"
    and "\<And>x. x \<in> K \<Longrightarrow> x \<in> set (done @ queue st) \<longleftrightarrow> pendingIn D done x + count_list rest x = 0"
  shows "countInv D K done rest st"
  unfolding countInv_def using assms by (intro conjI ballI)

lemma relax_countInv:
  assumes inv: "countInv D K done (x # rest) st" and xK: "x \<in> K"
  shows "countInv D K done rest (relax c l x st)"
proof (rule countInvI)
  let ?p = "pendingIn D done x + count_list rest x"
  note o = countInvD[OF inv]
  have fresh: "x \<notin> set (done @ queue st)" using inv xK by (rule countInv_head_fresh)
  have deg: "map_of (inDegree st) x = Some (int ?p + 1)"
    using o(3)[OF xK] by simp
  have q: "queue (relax c l x st) = (if ?p = 0 then queue st @ [x] else queue st)"
    using relax_queue[OF deg, of c l] by simp
  have i: "inDegree (relax c l x st) = AList.update x (int ?p) (inDegree st)"
    using relax_inDegree[OF deg, of c l] by simp
  show "distinct (done @ queue (relax c l x st))"
    using o(1) fresh unfolding q by simp
  show "set (done @ queue (relax c l x st)) \<subseteq> K"
    using o(2) xK unfolding q by simp
  show "map_of (inDegree (relax c l x st)) y
             = Some (int (pendingIn D done y + count_list rest y))" if "y \<in> K" for y
    using o(3)[OF that] unfolding i by (simp add: update_conv')
  show "y \<in> set (done @ queue (relax c l x st))
             \<longleftrightarrow> pendingIn D done y + count_list rest y = 0" if yK: "y \<in> K" for y
  proof (cases "y = x")
    case True
    then show ?thesis using fresh unfolding q by simp
  next
    case False
    then show ?thesis using o(4)[OF yK] unfolding q by simp
  qed
qed

lemma levelInvD:
  assumes "levelInv D K done st"
  shows "distinct (map fst (levels st))"
    and "\<And>x l. map_of (levels st) x = Some l \<Longrightarrow> 0 \<le> l"
    and "\<And>x l. map_of (levels st) x = Some l \<Longrightarrow> x \<in> K"
    and "\<And>x l. map_of (levels st) x = Some l \<Longrightarrow> linked D done st x l"
    and "\<And>x. x \<in> set (done @ queue st) \<Longrightarrow> map_of (levels st) x \<noteq> None"
proof -
  from assms have a: "distinct (map fst (levels st)) \<and>
     (\<forall>x l. map_of (levels st) x = Some l \<longrightarrow> 0 \<le> l \<and> x \<in> K \<and> linked D done st x l) \<and>
     (\<forall>x\<in>set (done @ queue st). map_of (levels st) x \<noteq> None)"
    unfolding levelInv_def .
  from a show "distinct (map fst (levels st))" by (elim conjE)
  from a have b: "\<forall>x l. map_of (levels st) x = Some l \<longrightarrow> 0 \<le> l \<and> x \<in> K \<and> linked D done st x l"
    by (elim conjE)
  show "\<And>x l. map_of (levels st) x = Some l \<Longrightarrow> 0 \<le> l" using b by blast
  show "\<And>x l. map_of (levels st) x = Some l \<Longrightarrow> x \<in> K" using b by blast
  show "\<And>x l. map_of (levels st) x = Some l \<Longrightarrow> linked D done st x l" using b by blast
  from a have "\<forall>x\<in>set (done @ queue st). map_of (levels st) x \<noteq> None" by (elim conjE)
  then show "\<And>x. x \<in> set (done @ queue st) \<Longrightarrow> map_of (levels st) x \<noteq> None" by (rule bspec)
qed

lemma levelInvI:
  assumes "distinct (map fst (levels st))"
    and "\<And>x l. map_of (levels st) x = Some l \<Longrightarrow> 0 \<le> l \<and> x \<in> K \<and> linked D done st x l"
    and "\<And>x. x \<in> set (done @ queue st) \<Longrightarrow> map_of (levels st) x \<noteq> None"
  shows "levelInv D K done st"
  unfolding levelInv_def using assms by blast

lemma relaxedInvD:
  assumes "relaxedInv D done rest st" and "c \<in> set done" and "x \<in> set (dependentsOf D c)"
    and "c = last done \<Longrightarrow> x \<notin> set rest"
  shows "\<exists>lc lx. map_of (levels st) c = Some lc \<and> map_of (levels st) x = Some lx \<and> lc + 1 \<le> lx"
proof -
  from assms(1) have "\<forall>c\<in>set done. \<forall>x\<in>set (dependentsOf D c). (c = last done \<longrightarrow> x \<notin> set rest) \<longrightarrow>
        (\<exists>lc lx. map_of (levels st) c = Some lc \<and> map_of (levels st) x = Some lx \<and> lc + 1 \<le> lx)"
    unfolding relaxedInv_def .
  then have "(c = last done \<longrightarrow> x \<notin> set rest) \<longrightarrow>
        (\<exists>lc lx. map_of (levels st) c = Some lc \<and> map_of (levels st) x = Some lx \<and> lc + 1 \<le> lx)"
    using assms(2,3) by blast
  then show ?thesis using assms(4) by blast
qed

lemma relax_levelInv:
  assumes inv: "levelInv D K done st"
    and fresh: "x \<notin> set done" and c: "c \<in> set done" and lc: "map_of (levels st) c = Some l"
    and edge: "x \<in> set (dependentsOf D c)" and xK: "x \<in> K"
  shows "levelInv D K done (relax c l x st)"
    and "map_of (levels (relax c l x st)) c = Some l"
    and "\<exists>lx. map_of (levels (relax c l x st)) x = Some lx \<and> l + 1 \<le> lx"
    and "\<And>y ly. y \<noteq> x \<Longrightarrow> map_of (levels (relax c l x st)) y = map_of (levels st) y"
    and "\<And>ly. map_of (levels st) x = Some ly \<Longrightarrow>
           \<exists>ly'. map_of (levels (relax c l x st)) x = Some ly' \<and> ly \<le> ly'"
proof -
  let ?st = "relax c l x st"
  note lv = levelInvD[OF inv]
  have l0: "0 \<le> l" using lc by (rule lv(2))
  have cx: "c \<noteq> x" using fresh c by blast
  have old: "\<And>y ly. map_of (levels st) y = Some ly \<Longrightarrow> 0 \<le> ly \<and> y \<in> K \<and> linked D done st y ly"
    using lv(2,3,4) by blast
  show keepc: "map_of (levels ?st) c = Some l"
    using lc cx by (simp add: relax_levels update_conv')
  show other: "\<And>y ly. y \<noteq> x \<Longrightarrow> map_of (levels ?st) y = map_of (levels st) y"
    by (simp add: relax_levels update_conv')
  show newx: "\<exists>lx. map_of (levels ?st) x = Some lx \<and> l + 1 \<le> lx"
  proof (cases "l + 1 > orElse (map_of (levels st) x) (- 1)")
    case True
    then show ?thesis by (simp add: relax_levels update_conv')
  next
    case False
    then show ?thesis using orElse_minus_one_le[OF l0 False] by (simp add: relax_levels)
  qed
  show grow: "\<And>ly. map_of (levels st) x = Some ly \<Longrightarrow>
           \<exists>ly'. map_of (levels ?st) x = Some ly' \<and> ly \<le> ly'"
  proof -
    fix ly assume a: "map_of (levels st) x = Some ly"
    then have "0 \<le> ly" using old by blast
    show "\<exists>ly'. map_of (levels ?st) x = Some ly' \<and> ly \<le> ly'"
    proof (cases "l + 1 > orElse (map_of (levels st) x) (- 1)")
      case True
      then have "ly < l + 1" using a \<open>0 \<le> ly\<close> l0 orElse_minus_one_gt by simp
      then show ?thesis using True by (simp add: relax_levels update_conv')
    next
      case False
      then show ?thesis using a by (simp add: relax_levels)
    qed
  qed
  have 1: "distinct (map fst (levels ?st))"
    using lv(1) by (simp add: relax_levels distinct_update)
  have 2: "0 \<le> ly \<and> y \<in> K \<and> linked D done ?st y ly" if a: "map_of (levels ?st) y = Some ly" for y ly
  proof (cases "l + 1 > orElse (map_of (levels st) x) (- 1)")
    case up: True
    have L: "map_of (levels ?st) = (map_of (levels st))(x \<mapsto> l + 1)"
      and P: "map_of (parent ?st) = (map_of (parent st))(x \<mapsto> Some c)"
      using up by (simp_all add: relax_levels relax_parent update_conv')
    show ?thesis
    proof (cases "y = x")
      case True
      then have "ly = l + 1" using a L by simp
      then show ?thesis
        using True l0 xK c edge keepc by (simp add: linked_def P)
    next
      case False
      then have b: "map_of (levels st) y = Some ly" using a L by simp
      then have o: "0 \<le> ly" "y \<in> K" "linked D done st y ly" using old by blast+
      have "linked D done ?st y ly"
      proof (cases "map_of (parent st) y")
        case None
        then show ?thesis using o(3) by (simp add: linked_def)
      next
        case (Some pp)
        show ?thesis
        proof (cases pp)
          case None
          then have "y \<in> set (done @ queue st)"
            using o(3) Some by (simp add: linked_def)
          then have "y \<in> set (done @ queue ?st)"
            using relax_queue_grows[of st c l x] by auto
          then show ?thesis using o(3) Some None False by (simp add: linked_def P)
        next
          case (Some p)
          then have p: "p \<in> set done" "y \<in> set (dependentsOf D p)" "map_of (levels st) p = Some (ly - 1)"
            using o(3) \<open>map_of (parent st) y = Some pp\<close> by (simp_all add: linked_def)
          then have "p \<noteq> x" using fresh by blast
          then show ?thesis
            using p Some \<open>map_of (parent st) y = Some pp\<close> False by (simp add: linked_def P L)
        qed
      qed
      then show ?thesis using o by blast
    qed
  next
    case same: False
    have L: "levels ?st = levels st" and P: "parent ?st = parent st"
      using same by (simp_all add: relax_levels relax_parent)
    have "linked D done st y ly" using old[of y ly] a L by simp
    then have "linked D done ?st y ly"
      using relax_queue_grows[of st c l x]
      by (auto simp: linked_def L P split: option.splits)
    then show ?thesis using old[of y ly] a L by simp
  qed
  have 3: "map_of (levels ?st) y \<noteq> None" if "y \<in> set (done @ queue ?st)" for y
  proof -
    note that
    then have "y = x \<or> y \<in> set (done @ queue st)"
      using relax_queue_subset[of c l x st] by auto
    then show "map_of (levels ?st) y \<noteq> None"
    proof
      assume "y = x"
      then show ?thesis using newx by auto
    next
      assume y: "y \<in> set (done @ queue st)"
      then have "map_of (levels st) y \<noteq> None" by (rule lv(5))
      then show ?thesis using other[of y] grow[of _] by (cases "y = x") auto
    qed
  qed
  show "levelInv D K done ?st"
    using 1 2 3 by (rule levelInvI)
qed

lemma relax_relaxedInv:
  assumes inv: "relaxedInv D done (x # rest) st" and lev: "levelInv D K done st"
    and fresh: "x \<notin> set done" and c: "c \<in> set done" "c = last done"
    and lc: "map_of (levels st) c = Some l"
    and edge: "x \<in> set (dependentsOf D c)" and xK: "x \<in> K"
  shows "relaxedInv D done rest (relax c l x st)"
  unfolding relaxedInv_def
proof (intro ballI impI)
  fix c' y
  assume c': "c' \<in> set done" and y: "y \<in> set (dependentsOf D c')"
    and cond: "c' = last done \<longrightarrow> y \<notin> set rest"
  let ?st = "relax c l x st"
  note r = relax_levelInv[OF lev fresh c(1) lc edge xK]
  have c'x: "c' \<noteq> x" using fresh c' by blast
  have keep: "map_of (levels ?st) c' = map_of (levels st) c'" using r(4) c'x by blast
  show "\<exists>lc lx. map_of (levels ?st) c' = Some lc \<and> map_of (levels ?st) y = Some lx \<and> lc + 1 \<le> lx"
  proof (cases "c' = c \<and> y = x")
    case True
    then show ?thesis using r(2,3) by auto
  next
    case False
    then have "c' = last done \<longrightarrow> y \<notin> set (x # rest)" using cond c(2) by auto
    then obtain lc' ly where o: "map_of (levels st) c' = Some lc'" "map_of (levels st) y = Some ly"
      "lc' + 1 \<le> ly"
      using relaxedInvD[OF inv c' y] by blast
    show ?thesis
    proof (cases "y = x")
      case True
      then obtain ly' where "map_of (levels ?st) x = Some ly'" "ly \<le> ly'"
        using r(5) o(2) by blast
      then show ?thesis using o(1,3) keep True by auto
    next
      case False
      then have "map_of (levels ?st) y = Some ly" using r(4) o(2) by simp
      then show ?thesis using o(1,3) keep by auto
    qed
  qed
qed

definition loopInv :: "(int, int list) jsMap \<Rightarrow> int set \<Rightarrow> int list \<Rightarrow> kahnState \<Rightarrow> bool" where
  "loopInv D K done st \<longleftrightarrow>
     countInv D K done [] st \<and> levelInv D K done st \<and> relaxedInv D done [] st"

lemma fold_relax_inv:
  assumes sub: "set (dependentsOf D c) \<subseteq> K" and c: "c \<in> set done" "c = last done"
  shows "set rest \<subseteq> set (dependentsOf D c) \<Longrightarrow> map_of (levels st) c = Some l \<Longrightarrow>
         countInv D K done rest st \<Longrightarrow> levelInv D K done st \<Longrightarrow> relaxedInv D done rest st \<Longrightarrow>
         loopInv D K done (fold (relax c l) rest st)"
proof (induction rest arbitrary: st)
  case Nil
  then show ?case by (simp add: loopInv_def)
next
  case (Cons x rest)
  have edge: "x \<in> set (dependentsOf D c)" using Cons.prems(1) by simp
  then have xK: "x \<in> K" using sub by blast
  have "x \<notin> set (done @ queue st)" using Cons.prems(3) xK by (rule countInv_head_fresh)
  then have fresh: "x \<notin> set done" by simp
  note r = relax_levelInv[OF Cons.prems(4) fresh c(1) Cons.prems(2) edge xK]
  have 1: "countInv D K done rest (relax c l x st)"
    using Cons.prems(3) xK by (rule relax_countInv)
  have 2: "relaxedInv D done rest (relax c l x st)"
    using Cons.prems(5,4) fresh c Cons.prems(2) edge xK by (rule relax_relaxedInv)
  have "set rest \<subseteq> set (dependentsOf D c)" using Cons.prems(1) by simp
  from Cons.IH[OF this r(2) 1 r(1) 2] show ?case by simp
qed

lemma dequeue_inv:
  assumes dD: "distinct (map fst D)" and kD: "fst ` set D = K"
    and inv: "loopInv D K done st" and q: "queue st = c # rest"
  shows "countInv D K (done @ [c]) (dependentsOf D c) (st\<lparr>queue := rest\<rparr>)"
    and "levelInv D K (done @ [c]) (st\<lparr>queue := rest\<rparr>)"
    and "relaxedInv D (done @ [c]) (dependentsOf D c) (st\<lparr>queue := rest\<rparr>)"
    and "map_of (levels (st\<lparr>queue := rest\<rparr>)) c = Some (orElse (map_of (levels st) c) 0)"
proof -
  have ci: "countInv D K done [] st" and li: "levelInv D K done st" and ri: "relaxedInv D done [] st"
    using inv unfolding loopInv_def by blast+
  note o = countInvD[OF ci]
  note lv = levelInvD[OF li]
  have cK: "c \<in> K" using o(2) q by simp
  have cd: "c \<notin> set done" using o(1) q by simp
  obtain ds where ds: "map_of D c = Some ds"
    using cK kD by (metis domD dom_map_of_conv_image_fst)
  then have dep: "dependentsOf D c = ds" by (simp add: dependentsOf_def)
  have pend: "pendingIn D done x = pendingIn D (done @ [c]) x + count_list (dependentsOf D c) x" for x
    unfolding dep using dD ds cd by (rule pendingIn_dequeue)
  have same: "set ((done @ [c]) @ rest) = set (done @ queue st)" using q by auto
  show "countInv D K (done @ [c]) (dependentsOf D c) (st\<lparr>queue := rest\<rparr>)"
  proof (rule countInvI)
    show "distinct ((done @ [c]) @ queue (st\<lparr>queue := rest\<rparr>))" using o(1) q by simp
    show "set ((done @ [c]) @ queue (st\<lparr>queue := rest\<rparr>)) \<subseteq> K" using o(2) q by simp
    show "map_of (inDegree (st\<lparr>queue := rest\<rparr>)) x =
          Some (int (pendingIn D (done @ [c]) x + count_list (dependentsOf D c) x))" if "x \<in> K" for x
      using o(3)[OF that] pend[of x] by simp
    show "x \<in> set ((done @ [c]) @ queue (st\<lparr>queue := rest\<rparr>)) \<longleftrightarrow>
          pendingIn D (done @ [c]) x + count_list (dependentsOf D c) x = 0" if "x \<in> K" for x
      using o(4)[OF that] pend[of x] same by simp
  qed
  show "levelInv D K (done @ [c]) (st\<lparr>queue := rest\<rparr>)"
  proof (rule levelInvI)
    show "distinct (map fst (levels (st\<lparr>queue := rest\<rparr>)))" using lv(1) by simp
    show "0 \<le> l \<and> x \<in> K \<and> linked D (done @ [c]) (st\<lparr>queue := rest\<rparr>) x l"
      if a: "map_of (levels (st\<lparr>queue := rest\<rparr>)) x = Some l" for x l
    proof -
      have b: "map_of (levels st) x = Some l" using a by simp
      have "linked D done st x l" using b by (rule lv(4))
      then have "linked D (done @ [c]) (st\<lparr>queue := rest\<rparr>) x l"
        using q by (auto simp: linked_def split: option.splits)
      then show ?thesis using lv(2)[OF b] lv(3)[OF b] by blast
    qed
    show "map_of (levels (st\<lparr>queue := rest\<rparr>)) x \<noteq> None"
      if "x \<in> set ((done @ [c]) @ queue (st\<lparr>queue := rest\<rparr>))" for x
    proof -
      have "x \<in> set (done @ queue st)" using that q by auto
      then show ?thesis using lv(5) by simp
    qed
  qed
  show "relaxedInv D (done @ [c]) (dependentsOf D c) (st\<lparr>queue := rest\<rparr>)"
    unfolding relaxedInv_def
  proof (intro ballI impI)
    fix c' x
    assume c': "c' \<in> set (done @ [c])" and x: "x \<in> set (dependentsOf D c')"
      and cond: "c' = last (done @ [c]) \<longrightarrow> x \<notin> set (dependentsOf D c)"
    have "c' \<noteq> c" using x cond by auto
    then have "c' \<in> set done" using c' by simp
    then have "\<exists>lc lx. map_of (levels st) c' = Some lc \<and> map_of (levels st) x = Some lx \<and> lc + 1 \<le> lx"
      using x by (intro relaxedInvD[OF ri]) simp_all
    then show "\<exists>lc lx. map_of (levels (st\<lparr>queue := rest\<rparr>)) c' = Some lc \<and>
                 map_of (levels (st\<lparr>queue := rest\<rparr>)) x = Some lx \<and> lc + 1 \<le> lx"
      by simp
  qed
  have "c \<in> set (done @ queue st)" using q by simp
  then obtain l where l: "map_of (levels st) c = Some l" using lv(5) by blast
  then have "0 \<le> l" by (rule lv(2))
  then have "orElse (Some l) 0 = l" by (simp add: orElse_def)
  then show "map_of (levels (st\<lparr>queue := rest\<rparr>)) c = Some (orElse (map_of (levels st) c) 0)"
    using l by simp
qed

lemma kahn_loop_inv:
  assumes dD: "distinct (map fst D)" and kD: "fst ` set D = K"
    and sub: "\<And>c. set (dependentsOf D c) \<subseteq> K"
  shows "loopInv D K done st \<Longrightarrow>
         \<exists>done'. loopInv D K done' (kahn_loop D st) \<and> queue (kahn_loop D st) = []"
  using dD kD sub
proof (induction D st arbitrary: "done" rule: kahn_loop.induct)
  case (1 D st)
  show ?case
  proof (cases "queue st")
    case Nil
    then have "kahn_loop D st = st" by (simp add: kahn_loop.simps[of D st])
    then show ?thesis using 1(2) Nil by auto
  next
    case (Cons c rest)
    let ?l = "orElse (map_of (levels st) c) 0"
    let ?st = "fold (relax c ?l) (dependentsOf D c) (st\<lparr>queue := rest\<rparr>)"
    have eq: "kahn_loop D st = kahn_loop D ?st"
      using Cons by (simp add: kahn_loop.simps[of D st])
    note d = dequeue_inv[OF 1(3) 1(4) 1(2) Cons]
    have "loopInv D K (done @ [c]) ?st"
      by (rule fold_relax_inv[OF 1(5) _ _ _ d(4) d(1) d(2) d(3)]) simp_all
    from 1(1)[OF Cons this 1(3) 1(4) 1(5)] show ?thesis unfolding eq .
  qed
qed

definition roots :: "(int, int) jsMap \<Rightarrow> int list" where
  "roots deg = map fst (filter (\<lambda>e. snd e = 0) deg)"

lemma roots_simps:
  "roots [] = []"
  "roots (e # deg) = (if snd e = 0 then fst e # roots deg else roots deg)"
  by (simp_all add: roots_def)

lemma seed_eq:
  "seed e st =
     (if snd e = 0
      then st\<lparr>queue := queue st @ [fst e],
              levels := AList.update (fst e) 0 (levels st),
              parent := AList.update (fst e) None (parent st)\<rparr>
      else st)"
  by (cases e) (simp add: seed_def)

lemma fold_seed_queue: "queue (fold seed deg st) = queue st @ roots deg"
  by (induction deg arbitrary: st) (simp_all add: roots_simps seed_eq)

lemma fold_seed_inDegree: "inDegree (fold seed deg st) = inDegree st"
  by (induction deg arbitrary: st) (simp_all add: seed_eq)

lemma fold_seed_levels:
  "map_of (levels (fold seed deg st)) k =
     (if k \<in> set (roots deg) then Some 0 else map_of (levels st) k)"
  by (induction deg arbitrary: st) (simp_all add: roots_simps seed_eq update_conv')

lemma fold_seed_parent:
  "map_of (parent (fold seed deg st)) k =
     (if k \<in> set (roots deg) then Some None else map_of (parent st) k)"
  by (induction deg arbitrary: st) (simp_all add: roots_simps seed_eq update_conv')

lemma fold_seed_distinct:
  "distinct (map fst (levels st)) \<Longrightarrow> distinct (map fst (levels (fold seed deg st)))"
  by (induction deg arbitrary: st) (simp_all add: seed_eq distinct_update)

lemma roots_iff:
  "distinct (map fst deg) \<Longrightarrow> x \<in> set (roots deg) \<longleftrightarrow> map_of deg x = Some 0"
  by (auto simp: roots_def map_of_eq_Some_iff image_iff)

lemma startState_inv:
  assumes "graphOk K (D, I)"
  shows "loopInv D K [] (startState I)"
proof -
  have dI: "distinct (map fst I)" and kI: "fst ` set I = K"
    and deg: "\<And>x. x \<in> K \<Longrightarrow> map_of I x = Some (int (pendingIn D [] x))"
    using assms unfolding graphOk_def by auto
  let ?st = "startState I"
  have q: "queue ?st = roots I"
    and L: "\<And>k. map_of (levels ?st) k = (if k \<in> set (roots I) then Some 0 else None)"
    and P: "\<And>k. map_of (parent ?st) k = (if k \<in> set (roots I) then Some None else None)"
    and i: "inDegree ?st = I"
    and dl: "distinct (map fst (levels ?st))"
    unfolding startState_def
    by (simp_all add: fold_seed_queue fold_seed_levels fold_seed_parent fold_seed_inDegree
        fold_seed_distinct)
  note R = roots_iff[OF dI]
  have RK: "set (roots I) \<subseteq> K" using kI by (auto simp: roots_def)
  have 1: "countInv D K [] [] ?st"
  proof (rule countInvI)
    show "distinct ([] @ queue ?st)"
      unfolding q roots_def using dI by (simp add: distinct_map_filter)
    show "set ([] @ queue ?st) \<subseteq> K" using q RK by simp
    show "map_of (inDegree ?st) x = Some (int (pendingIn D [] x + count_list [] x))" if "x \<in> K" for x
      using deg[OF that] i by simp
    show "x \<in> set ([] @ queue ?st) \<longleftrightarrow> pendingIn D [] x + count_list [] x = 0" if "x \<in> K" for x
      using deg[OF that] q R[of x] by simp
  qed
  have 2: "levelInv D K [] ?st"
  proof (rule levelInvI)
    show "distinct (map fst (levels ?st))" by (rule dl)
    show "0 \<le> l \<and> x \<in> K \<and> linked D [] ?st x l" if "map_of (levels ?st) x = Some l" for x l
      using that RK q by (auto simp: L P linked_def split: if_splits)
    show "map_of (levels ?st) x \<noteq> None" if "x \<in> set ([] @ queue ?st)" for x
      using that q by (simp add: L)
  qed
  have 3: "relaxedInv D [] [] ?st" by (simp add: relaxedInv_def)
  show ?thesis unfolding loopInv_def using 1 2 3 by blast
qed

subsection \<open>The state when the loop is left\<close>

text \<open>A chain of \<open>n\<close> dependency edges that leads into a task.\<close>

inductive chainInto :: "todoWithDependencies list \<Rightarrow> int \<Rightarrow> nat \<Rightarrow> bool"
  for todos :: "todoWithDependencies list" where
  start: "chainInto todos x 0"
| step: "chainInto todos c n \<Longrightarrow> (c, x) \<in> depEdges todos \<Longrightarrow> chainInto todos x (Suc n)"

text \<open>
  The facts about the final state that the claims use: \<open>done\<close> are the tasks that went
  through the queue.
\<close>

definition finalFacts :: "todoWithDependencies list \<Rightarrow> int list \<Rightarrow> kahnState \<Rightarrow> bool" where
  "finalFacts todos done st \<longleftrightarrow>
     queue st = [] \<and> set done \<subseteq> taskIds todos \<and>
     distinct (map fst (levels st)) \<and>
     (\<forall>x\<in>set done. \<forall>c. (c, x) \<in> depEdges todos \<longrightarrow> c \<in> set done) \<and>
     (\<forall>x\<in>taskIds todos. x \<notin> set done \<longrightarrow>
        (\<exists>c. c \<notin> set done \<and> (c, x) \<in> depEdges todos) \<and>
        (\<exists>d. map_of (inDegree st) x = Some d \<and> 1 \<le> d)) \<and>
     (\<forall>x\<in>set done. \<forall>c. (c, x) \<in> depEdges todos \<longrightarrow>
        (\<exists>lc lx. map_of (levels st) c = Some lc \<and> map_of (levels st) x = Some lx \<and> lc + 1 \<le> lx)) \<and>
     (\<forall>x l. map_of (levels st) x = Some l \<longrightarrow>
        0 \<le> l \<and> x \<in> taskIds todos \<and>
        (map_of (parent st) x = Some None \<and> l = 0 \<and> x \<in> set done \<or>
         (\<exists>p. map_of (parent st) x = Some (Some p) \<and> p \<in> set done \<and>
              (p, x) \<in> depEdges todos \<and> map_of (levels st) p = Some (l - 1)))) \<and>
     (\<forall>x\<in>set done. map_of (levels st) x \<noteq> None)"

lemma kahnFinal_facts: "\<exists>done. finalFacts todos done (kahnFinal todos)"
proof -
  obtain D I where g: "buildGraph todos = (D, I)" by (cases "buildGraph todos")
  let ?K = "taskIds todos"
  let ?st = "kahnFinal todos"
  have st: "?st = kahn_loop D (startState I)" by (simp add: kahnFinal_def g)
  note ok = buildGraph_facts(1)[OF g]
  note edges = buildGraph_facts(2)[OF g]
  have dD: "distinct (map fst D)" and kD: "fst ` set D = ?K"
    and subs: "\<And>c ds. map_of D c = Some ds \<Longrightarrow> set ds \<subseteq> ?K"
    using ok unfolding graphOk_def by auto
  have sub: "set (dependentsOf D c) \<subseteq> ?K" for c
    using subs[of c] by (cases "map_of D c") (simp_all add: dependentsOf_def)
  obtain dn where inv: "loopInv D ?K dn ?st" and q: "queue ?st = []"
    using kahn_loop_inv[OF dD kD sub startState_inv[OF ok]] unfolding st by blast
  have ci: "countInv D ?K dn [] ?st" and li: "levelInv D ?K dn ?st" and ri: "relaxedInv D dn [] ?st"
    using inv unfolding loopInv_def by blast+
  note o = countInvD[OF ci]
  note lv = levelInvD[OF li]
  have dsub: "set dn \<subseteq> ?K" using o(2) by simp
  have zero: "x \<in> set dn \<longleftrightarrow> pendingIn D dn x = 0" if "x \<in> ?K" for x
    using o(4)[OF that] q by simp
  have pos: "0 < pendingIn D dn x \<longleftrightarrow> (\<exists>c\<in>?K. c \<notin> set dn \<and> (c, x) \<in> depEdges todos)" for x
    using pendingIn_pos_dependentsOf[OF dD, of dn x] by (simp add: kD edges)
  have edgeK: "c \<in> ?K" if "(c, x) \<in> depEdges todos" for c x
    using that by (simp add: depEdges_def)
  have 1: "c \<in> set dn" if "x \<in> set dn" "(c, x) \<in> depEdges todos" for x c
  proof (rule ccontr)
    assume "c \<notin> set dn"
    then have "0 < pendingIn D dn x" using pos[of x] that(2) edgeK by blast
    moreover have "pendingIn D dn x = 0" using zero[of x] that(1) dsub by blast
    ultimately show False by simp
  qed
  have 2: "(\<exists>c. c \<notin> set dn \<and> (c, x) \<in> depEdges todos) \<and>
           (\<exists>d. map_of (inDegree ?st) x = Some d \<and> 1 \<le> d)" if "x \<in> ?K" "x \<notin> set dn" for x
  proof -
    have p: "0 < pendingIn D dn x" using zero[OF that(1)] that(2) by simp
    then have "\<exists>c. c \<notin> set dn \<and> (c, x) \<in> depEdges todos" using pos[of x] by blast
    moreover have "map_of (inDegree ?st) x = Some (int (pendingIn D dn x))"
      using o(3)[OF that(1)] by simp
    ultimately show ?thesis using p by simp
  qed
  have 3: "\<exists>lc lx. map_of (levels ?st) c = Some lc \<and> map_of (levels ?st) x = Some lx \<and> lc + 1 \<le> lx"
    if "x \<in> set dn" "(c, x) \<in> depEdges todos" for x c
  proof -
    have "c \<in> set dn" using that by (rule 1)
    moreover have "x \<in> set (dependentsOf D c)" using that(2) by (simp add: edges)
    ultimately show ?thesis by (intro relaxedInvD[OF ri]) simp_all
  qed
  have 4: "0 \<le> l \<and> x \<in> ?K \<and>
        (map_of (parent ?st) x = Some None \<and> l = 0 \<and> x \<in> set dn \<or>
         (\<exists>p. map_of (parent ?st) x = Some (Some p) \<and> p \<in> set dn \<and>
              (p, x) \<in> depEdges todos \<and> map_of (levels ?st) p = Some (l - 1)))"
    if a: "map_of (levels ?st) x = Some l" for x l
  proof -
    have "linked D dn ?st x l" using a by (rule lv(4))
    then have "map_of (parent ?st) x = Some None \<and> l = 0 \<and> x \<in> set dn \<or>
         (\<exists>p. map_of (parent ?st) x = Some (Some p) \<and> p \<in> set dn \<and>
              (p, x) \<in> depEdges todos \<and> map_of (levels ?st) p = Some (l - 1))"
      using q by (auto simp: linked_def edges split: option.splits)
    then show ?thesis using lv(2)[OF a] lv(3)[OF a] by blast
  qed
  have 5: "map_of (levels ?st) x \<noteq> None" if "x \<in> set dn" for x
    using lv(5)[of x] that by simp
  have "finalFacts todos dn ?st"
    unfolding finalFacts_def using q dsub lv(1) 1 2 3 4 5 by blast
  then show ?thesis ..
qed

lemma finalFactsD:
  assumes "finalFacts todos done st"
  shows "queue st = []" and "set done \<subseteq> taskIds todos" and "distinct (map fst (levels st))"
    and "\<And>x c. x \<in> set done \<Longrightarrow> (c, x) \<in> depEdges todos \<Longrightarrow> c \<in> set done"
    and "\<And>x. x \<in> taskIds todos \<Longrightarrow> x \<notin> set done \<Longrightarrow> \<exists>c. c \<notin> set done \<and> (c, x) \<in> depEdges todos"
    and "\<And>x. x \<in> taskIds todos \<Longrightarrow> x \<notin> set done \<Longrightarrow> \<exists>d. map_of (inDegree st) x = Some d \<and> 1 \<le> d"
    and "\<And>x c. x \<in> set done \<Longrightarrow> (c, x) \<in> depEdges todos \<Longrightarrow>
           \<exists>lc lx. map_of (levels st) c = Some lc \<and> map_of (levels st) x = Some lx \<and> lc + 1 \<le> lx"
    and "\<And>x l. map_of (levels st) x = Some l \<Longrightarrow> 0 \<le> l"
    and "\<And>x l. map_of (levels st) x = Some l \<Longrightarrow> x \<in> taskIds todos"
    and "\<And>x l. map_of (levels st) x = Some l \<Longrightarrow>
           map_of (parent st) x = Some None \<and> l = 0 \<and> x \<in> set done \<or>
           (\<exists>p. map_of (parent st) x = Some (Some p) \<and> p \<in> set done \<and>
                (p, x) \<in> depEdges todos \<and> map_of (levels st) p = Some (l - 1))"
    and "\<And>x. x \<in> set done \<Longrightarrow> \<exists>l. map_of (levels st) x = Some l"
proof -
  note a = assms[unfolded finalFacts_def]
  from a show "queue st = []" by (elim conjE)
  from a show "set done \<subseteq> taskIds todos" by (elim conjE)
  from a show "distinct (map fst (levels st))" by (elim conjE)
  from a have "\<forall>x\<in>set done. \<forall>c. (c, x) \<in> depEdges todos \<longrightarrow> c \<in> set done" by (elim conjE)
  then show "\<And>x c. x \<in> set done \<Longrightarrow> (c, x) \<in> depEdges todos \<Longrightarrow> c \<in> set done" by blast
  from a have b: "\<forall>x\<in>taskIds todos. x \<notin> set done \<longrightarrow>
        (\<exists>c. c \<notin> set done \<and> (c, x) \<in> depEdges todos) \<and>
        (\<exists>d. map_of (inDegree st) x = Some d \<and> 1 \<le> d)" by (elim conjE)
  show "\<And>x. x \<in> taskIds todos \<Longrightarrow> x \<notin> set done \<Longrightarrow> \<exists>c. c \<notin> set done \<and> (c, x) \<in> depEdges todos"
    using b by blast
  show "\<And>x. x \<in> taskIds todos \<Longrightarrow> x \<notin> set done \<Longrightarrow> \<exists>d. map_of (inDegree st) x = Some d \<and> 1 \<le> d"
    using b by blast
  from a have "\<forall>x\<in>set done. \<forall>c. (c, x) \<in> depEdges todos \<longrightarrow>
        (\<exists>lc lx. map_of (levels st) c = Some lc \<and> map_of (levels st) x = Some lx \<and> lc + 1 \<le> lx)"
    by (elim conjE)
  then show "\<And>x c. x \<in> set done \<Longrightarrow> (c, x) \<in> depEdges todos \<Longrightarrow>
           \<exists>lc lx. map_of (levels st) c = Some lc \<and> map_of (levels st) x = Some lx \<and> lc + 1 \<le> lx"
    by blast
  from a have c: "\<forall>x l. map_of (levels st) x = Some l \<longrightarrow>
        0 \<le> l \<and> x \<in> taskIds todos \<and>
        (map_of (parent st) x = Some None \<and> l = 0 \<and> x \<in> set done \<or>
         (\<exists>p. map_of (parent st) x = Some (Some p) \<and> p \<in> set done \<and>
              (p, x) \<in> depEdges todos \<and> map_of (levels st) p = Some (l - 1)))" by (elim conjE)
  show "\<And>x l. map_of (levels st) x = Some l \<Longrightarrow> 0 \<le> l" using c by blast
  show "\<And>x l. map_of (levels st) x = Some l \<Longrightarrow> x \<in> taskIds todos" using c by blast
  show "\<And>x l. map_of (levels st) x = Some l \<Longrightarrow>
           map_of (parent st) x = Some None \<and> l = 0 \<and> x \<in> set done \<or>
           (\<exists>p. map_of (parent st) x = Some (Some p) \<and> p \<in> set done \<and>
                (p, x) \<in> depEdges todos \<and> map_of (levels st) p = Some (l - 1))"
    using c by blast
  from a have "\<forall>x\<in>set done. map_of (levels st) x \<noteq> None" by (elim conjE)
  then show "\<And>x. x \<in> set done \<Longrightarrow> \<exists>l. map_of (levels st) x = Some l" by blast
qed

text \<open>No chain into a task that went through the queue is longer than its level.\<close>

lemma level_upper:
  assumes f: "finalFacts todos done st"
  shows "chainInto todos x n \<Longrightarrow> x \<in> set done \<Longrightarrow> \<exists>l. map_of (levels st) x = Some l \<and> int n \<le> l"
proof (induction rule: chainInto.induct)
  case (start x)
  then obtain l where "map_of (levels st) x = Some l" using finalFactsD(11)[OF f] by blast
  then show ?case using finalFactsD(8)[OF f] by auto
next
  case (step c n x)
  have "c \<in> set done" using step.prems step.hyps(2) by (rule finalFactsD(4)[OF f])
  then obtain lc where lc: "map_of (levels st) c = Some lc" "int n \<le> lc" using step.IH by blast
  obtain lc' lx where "map_of (levels st) c = Some lc'" "map_of (levels st) x = Some lx" "lc' + 1 \<le> lx"
    using finalFactsD(7)[OF f step.prems step.hyps(2)] by blast
  then show ?case using lc by auto
qed

text \<open>Every recorded level is the length of a chain.\<close>

lemma level_attained:
  assumes f: "finalFacts todos done st"
  shows "map_of (levels st) x = Some l \<Longrightarrow> chainInto todos x (nat l)"
proof (induction "nat l" arbitrary: x l)
  case 0
  then show ?case by (simp add: chainInto.start)
next
  case (Suc n)
  from finalFactsD(10)[OF f Suc.prems] Suc.hyps(2)
  obtain p where p: "(p, x) \<in> depEdges todos" "map_of (levels st) p = Some (l - 1)"
    by auto
  have "n = nat (l - 1)" using Suc.hyps(2) by simp
  then have "chainInto todos p (nat (l - 1))" using p(2) by (rule Suc.hyps(1))
  then have "chainInto todos x (Suc (nat (l - 1)))" using p(1) by (rule chainInto.step)
  then show ?case using Suc.hyps(2) by (simp add: \<open>n = nat (l - 1)\<close>)
qed

lemma chain_along:
  "(x, y) \<in> (depEdges todos)\<^sup>+ \<Longrightarrow> chainInto todos x n \<Longrightarrow> \<exists>m>n. chainInto todos y m"
proof (induction rule: trancl_induct)
  case (base y)
  then have "chainInto todos y (Suc n)" by (intro chainInto.step)
  then show ?case by blast
next
  case (step y z)
  then obtain m where "m > n" "chainInto todos y m" by blast
  then have "chainInto todos z (Suc m)" using step.hyps(2) by (intro chainInto.step)
  then show ?case using \<open>m > n\<close> by (metis less_SucI)
qed

text \<open>A task on a cycle never leaves the queue.\<close>

lemma cycle_not_done:
  assumes f: "finalFacts todos done st" and cyc: "(x, x) \<in> (depEdges todos)\<^sup>+"
  shows "x \<notin> set done"
proof
  assume d: "x \<in> set done"
  then obtain l where l: "map_of (levels st) x = Some l" using finalFactsD(11)[OF f] by blast
  then have "chainInto todos x (nat l)" by (rule level_attained[OF f])
  then obtain m where m: "m > nat l" "chainInto todos x m" using chain_along[OF cyc] by blast
  then obtain l' where "map_of (levels st) x = Some l'" "int m \<le> l'"
    using level_upper[OF f m(2) d] by blast
  then show False using l m(1) by simp
qed

lemma finite_depEdges: "finite (depEdges todos)"
proof (rule finite_subset)
  show "depEdges todos \<subseteq> taskIds todos \<times> taskIds todos"
    by (auto simp: depEdges_def taskIds_def)
  show "finite (taskIds todos \<times> taskIds todos)" by (simp add: taskIds_def)
qed

text \<open>Without a cycle every task goes through the queue.\<close>

lemma acyclic_all_done:
  assumes f: "finalFacts todos done st" and ac: "acyclic (depEdges todos)"
  shows "set done = taskIds todos"
proof (rule ccontr)
  assume "set done \<noteq> taskIds todos"
  then obtain x where x: "x \<in> taskIds todos - set done" using finalFactsD(2)[OF f] by blast
  have "wf (depEdges todos)" using finite_depEdges ac by (rule finite_acyclic_wf)
  then obtain z where z: "z \<in> taskIds todos - set done"
    "\<And>y. (y, z) \<in> depEdges todos \<Longrightarrow> y \<notin> taskIds todos - set done"
    using x by (rule wfE_min) blast
  obtain c where c: "c \<notin> set done" "(c, z) \<in> depEdges todos"
    using finalFactsD(5)[OF f, of z] z(1) by blast
  then have "c \<in> taskIds todos" by (simp add: depEdges_def)
  then show False using z(2)[OF c(2)] c(1) by simp
qed

text \<open>Walking the parent links from a task with a level ends after as many steps as the level says.\<close>

lemma reconstruct_path:
  assumes f: "finalFacts todos done st"
  shows "map_of (levels st) x = Some l \<Longrightarrow>
         \<exists>p. reconstruct (parent st) (Some x) acc = Some (p @ acc) \<and>
             length p = nat l + 1 \<and> last p = x \<and> map_of (levels st) (hd p) = Some 0 \<and>
             successively (\<lambda>a b. (a, b) \<in> depEdges todos) p \<and> set p \<subseteq> taskIds todos \<and>
             set (butlast p) \<subseteq> set done"
proof (induction "nat l" arbitrary: x l acc)
  case 0
  have l0: "l = 0" using 0 finalFactsD(8)[OF f 0(2)] by simp
  have xK: "x \<in> taskIds todos" using 0(2) by (rule finalFactsD(9)[OF f])
  from finalFactsD(10)[OF f 0(2)] have par: "map_of (parent st) x = Some None"
  proof
    assume "map_of (parent st) x = Some None \<and> l = 0 \<and> x \<in> set done"
    then show ?thesis by simp
  next
    assume "\<exists>p. map_of (parent st) x = Some (Some p) \<and> p \<in> set done \<and>
                (p, x) \<in> depEdges todos \<and> map_of (levels st) p = Some (l - 1)"
    then obtain p where "map_of (levels st) p = Some (l - 1)" by blast
    then have "0 \<le> l - 1" by (rule finalFactsD(8)[OF f])
    then show ?thesis using l0 by simp
  qed
  have "reconstruct (parent st) (Some x) acc = Some ([x] @ acc)"
    by (simp add: par)
  then show ?case using 0(2) l0 xK by (intro exI[of _ "[x]"]) simp
next
  case (Suc n)
  have xK: "x \<in> taskIds todos" using Suc.prems by (rule finalFactsD(9)[OF f])
  from finalFactsD(10)[OF f Suc.prems] Suc.hyps(2)
  obtain q where q: "map_of (parent st) x = Some (Some q)" "q \<in> set done"
    "(q, x) \<in> depEdges todos" "map_of (levels st) q = Some (l - 1)"
    by auto
  have n: "n = nat (l - 1)" using Suc.hyps(2) by simp
  from Suc.hyps(1)[OF n q(4), of "x # acc"]
  obtain p where p: "reconstruct (parent st) (Some q) (x # acc) = Some (p @ x # acc)"
    "length p = nat (l - 1) + 1" "last p = q" "map_of (levels st) (hd p) = Some 0"
    "successively (\<lambda>a b. (a, b) \<in> depEdges todos) p" "set p \<subseteq> taskIds todos"
    "set (butlast p) \<subseteq> set done"
    by blast
  have ne: "p \<noteq> []" using p(2) by auto
  have 1: "reconstruct (parent st) (Some x) acc = Some ((p @ [x]) @ acc)"
    using q(1) p(1) by simp
  have 2: "length (p @ [x]) = nat l + 1" using p(2) Suc.hyps(2) by simp
  have 3: "successively (\<lambda>a b. (a, b) \<in> depEdges todos) (p @ [x])"
    using p(5) ne p(3) q(3) by (simp add: successively_append_iff)
  have 4: "set (butlast (p @ [x])) \<subseteq> set done"
  proof -
    have "set p = insert (last p) (set (butlast p))"
      using ne by (metis append_butlast_last_id list.simps(15) set_append Un_insert_right
          sup_bot.right_neutral empty_set)
    then show ?thesis using p(7) p(3) q(2) by simp
  qed
  show ?case
    using 1 2 3 4 p(4) p(6) xK ne by (intro exI[of _ "p @ [x]"]) simp
qed

lemma fold_scan:
  "fold scan lv (m0, e0) = (m, e) \<Longrightarrow>
     m0 \<le> m \<and> (\<forall>x\<in>set lv. snd x \<le> m) \<and>
     (e = e0 \<and> m = m0 \<or>
      (\<exists>pre k post. lv = pre @ (k, m) # post \<and> e = Some k \<and> m0 < m \<and>
         (\<forall>x\<in>set pre. snd x < m) \<and> (\<forall>x\<in>set post. snd x \<le> m)))"
proof (induction lv arbitrary: m0 e0)
  case Nil
  then show ?case by simp
next
  case (Cons a lv)
  obtain k l where a: "a = (k, l)" by (cases a)
  show ?case
  proof (cases "l > m0")
    case True
    then have "scan a (m0, e0) = (l, Some k)" by (simp add: a scan_def)
    then have "fold scan lv (l, Some k) = (m, e)"
      using Cons.prems by simp
    from Cons.IH[OF this]
    have le: "l \<le> m" and all: "\<forall>x\<in>set lv. snd x \<le> m"
      and alt: "e = Some k \<and> m = l \<or>
        (\<exists>pre k' post. lv = pre @ (k', m) # post \<and> e = Some k' \<and> l < m \<and>
           (\<forall>x\<in>set pre. snd x < m) \<and> (\<forall>x\<in>set post. snd x \<le> m))"
      by blast+
    from alt have "\<exists>pre k' post. a # lv = pre @ (k', m) # post \<and> e = Some k' \<and> m0 < m \<and>
           (\<forall>x\<in>set pre. snd x < m) \<and> (\<forall>x\<in>set post. snd x \<le> m)"
    proof
      assume "e = Some k \<and> m = l"
      then have "a # lv = [] @ (k, m) # lv \<and> e = Some k \<and> m0 < m \<and>
           (\<forall>x\<in>set []. snd x < m) \<and> (\<forall>x\<in>set lv. snd x \<le> m)"
        using a True all by simp
      then show ?thesis by blast
    next
      assume "\<exists>pre k' post. lv = pre @ (k', m) # post \<and> e = Some k' \<and> l < m \<and>
           (\<forall>x\<in>set pre. snd x < m) \<and> (\<forall>x\<in>set post. snd x \<le> m)"
      then obtain pre k' post where p: "lv = pre @ (k', m) # post" "e = Some k'" "l < m"
           "\<forall>x\<in>set pre. snd x < m" "\<forall>x\<in>set post. snd x \<le> m" by blast
      then have "a # lv = (a # pre) @ (k', m) # post \<and> e = Some k' \<and> m0 < m \<and>
           (\<forall>x\<in>set (a # pre). snd x < m) \<and> (\<forall>x\<in>set post. snd x \<le> m)"
        using a True by simp
      then show ?thesis by blast
    qed
    then show ?thesis using le all True a by auto
  next
    case False
    then have "scan a (m0, e0) = (m0, e0)" by (simp add: a scan_def)
    then have "fold scan lv (m0, e0) = (m, e)"
      using Cons.prems by simp
    from Cons.IH[OF this]
    have le: "m0 \<le> m" and all: "\<forall>x\<in>set lv. snd x \<le> m"
      and alt: "e = e0 \<and> m = m0 \<or>
        (\<exists>pre k' post. lv = pre @ (k', m) # post \<and> e = Some k' \<and> m0 < m \<and>
           (\<forall>x\<in>set pre. snd x < m) \<and> (\<forall>x\<in>set post. snd x \<le> m))"
      by blast+
    from alt have "e = e0 \<and> m = m0 \<or>
        (\<exists>pre k' post. a # lv = pre @ (k', m) # post \<and> e = Some k' \<and> m0 < m \<and>
           (\<forall>x\<in>set pre. snd x < m) \<and> (\<forall>x\<in>set post. snd x \<le> m))"
    proof
      assume "e = e0 \<and> m = m0"
      then show ?thesis by blast
    next
      assume "\<exists>pre k' post. lv = pre @ (k', m) # post \<and> e = Some k' \<and> m0 < m \<and>
           (\<forall>x\<in>set pre. snd x < m) \<and> (\<forall>x\<in>set post. snd x \<le> m)"
      then obtain pre k' post where p: "lv = pre @ (k', m) # post" "e = Some k'" "m0 < m"
           "\<forall>x\<in>set pre. snd x < m" "\<forall>x\<in>set post. snd x \<le> m" by blast
      then have "a # lv = (a # pre) @ (k', m) # post \<and> e = Some k' \<and> m0 < m \<and>
           (\<forall>x\<in>set (a # pre). snd x < m) \<and> (\<forall>x\<in>set post. snd x \<le> m)"
        using a False by simp
      then show ?thesis by blast
    qed
    then show ?thesis using le all False a by auto
  qed
qed

text \<open>
  What \<open>calculateCriticalPath\<close> returns for a list that is not empty, in terms of the
  final state: the function returns for every input.
\<close>

lemma calculateCriticalPath_result:
  assumes ne: "todos \<noteq> []" and f: "finalFacts todos done (kahnFinal todos)"
  shows "\<exists>m e p. fold scan (levels (kahnFinal todos)) (0, None) = (m, e) \<and>
           reconstruct (parent (kahnFinal todos)) e [] = Some p \<and>
           calculateCriticalPath todos =
             Some \<lparr>criticalPath = p, pathLength = m + 1, nodeLevels = map_of (levels (kahnFinal todos))\<rparr> \<and>
           (e = None \<longrightarrow> p = [] \<and> m = 0) \<and>
           (\<forall>k. e = Some k \<longrightarrow>
              map_of (levels (kahnFinal todos)) k = Some m \<and> 0 < m \<and>
              length p = nat m + 1 \<and> last p = k \<and>
              map_of (levels (kahnFinal todos)) (hd p) = Some 0 \<and>
              successively (\<lambda>a b. (a, b) \<in> depEdges todos) p \<and> set p \<subseteq> taskIds todos \<and>
              set (butlast p) \<subseteq> set done)"
proof -
  let ?st = "kahnFinal todos"
  obtain m e where s: "fold scan (levels ?st) (0, None) = (m, e)"
    by (cases "fold scan (levels ?st) (0, None)")
  note sc = fold_scan[OF s]
  show ?thesis
  proof (cases e)
    case None
    then have "m = 0" using sc by auto
    moreover have "reconstruct (parent ?st) e [] = Some []" using None by simp
    ultimately show ?thesis using s None ne by (simp add: calculateCriticalPath_def)
  next
    case (Some k)
    then obtain pre post where lv: "levels ?st = pre @ (k, m) # post" and pos: "0 < m"
      using sc by auto
    have "(k, m) \<in> set (levels ?st)" unfolding lv by simp
    then have km: "map_of (levels ?st) k = Some m"
      using finalFactsD(3)[OF f] by (simp add: map_of_eq_Some_iff)
    from reconstruct_path[OF f km, of "[]"]
    obtain p where p: "reconstruct (parent ?st) (Some k) [] = Some p"
      "length p = nat m + 1" "last p = k" "map_of (levels ?st) (hd p) = Some 0"
      "successively (\<lambda>a b. (a, b) \<in> depEdges todos) p" "set p \<subseteq> taskIds todos"
      "set (butlast p) \<subseteq> set done"
      by auto
    have "calculateCriticalPath todos =
             Some \<lparr>criticalPath = p, pathLength = m + 1, nodeLevels = map_of (levels ?st)\<rparr>"
      using ne s Some p(1) by (simp add: calculateCriticalPath_def del: reconstruct_Some)
    then show ?thesis using s Some p km pos by (intro exI[of _ m] exI[of _ e] exI[of _ p]) simp
  qed
qed

lemma calculateCriticalPath_empty:
  "calculateCriticalPath [] = Some \<lparr>criticalPath = [], pathLength = 0, nodeLevels = Map.empty\<rparr>"
  by (simp add: calculateCriticalPath_def)

lemma calculateCriticalPath_levels:
  "\<exists>r. calculateCriticalPath todos = Some r \<and>
       (todos \<noteq> [] \<longrightarrow> nodeLevels r = map_of (levels (kahnFinal todos)))"
proof (cases "todos = []")
  case True
  then show ?thesis by (simp add: calculateCriticalPath_empty)
next
  case False
  obtain dn where f: "finalFacts todos dn (kahnFinal todos)" using kahnFinal_facts by blast
  from calculateCriticalPath_result[OF False f] show ?thesis using False by auto
qed

text \<open>Sample task lists.\<close>

definition cyclicTasks :: "todoWithDependencies list" where
  "cyclicTasks = [task 1 [], task 2 [1, 3], task 3 [2]]"

definition tiedTasks :: "todoWithDependencies list" where
  "tiedTasks = [task 1 [], task 2 [], task 3 [1, 2], task 4 [1]]"

lemma depEdges_scenarioA: "depEdges scenarioA = {(1, 2)}"
  by (auto simp: depEdges_def taskIds_def scenarioA_def mkTask_def mkTodo_def)

lemma depEdges_cyclicTasks: "depEdges cyclicTasks = {(1, 2), (3, 2), (2, 3)}"
  by (auto simp: depEdges_def taskIds_def cyclicTasks_def task_def mkTask_def mkTodo_def)

lemma kahnFinal_scenarioA:
  "kahnFinal scenarioA =
     \<lparr>queue = [], levels = [(1, 0), (2, 1)], parent = [(1, None), (2, Some 1)],
      inDegree = [(1, 0), (2, 0)]\<rparr>"
  by (simp add: scenarioA_def run_defs)

lemma kahnFinal_cyclicTasks:
  "kahnFinal cyclicTasks =
     \<lparr>queue = [], levels = [(1, 0), (2, 1)], parent = [(1, None), (2, Some 1)],
      inDegree = [(1, 0), (2, 1), (3, 1)]\<rparr>"
  by (simp add: cyclicTasks_def run_defs)

lemma kahnFinal_tiedTasks:
  "kahnFinal tiedTasks =
     \<lparr>queue = [], levels = [(1, 0), (2, 0), (3, 1), (4, 1)],
      parent = [(1, None), (2, None), (3, Some 1), (4, Some 1)],
      inDegree = [(1, 0), (2, 0), (3, 0), (4, 0)]\<rparr>"
  by (simp add: tiedTasks_def run_defs)

lemma calculateCriticalPath_scenarioA:
  "calculateCriticalPath scenarioA =
     Some \<lparr>criticalPath = [1, 2], pathLength = 2, nodeLevels = map_of [(1, 0), (2, 1)]\<rparr>"
  by (simp add: calculateCriticalPath_def kahnFinal_scenarioA scan_def) (simp add: scenarioA_def)

lemma calculateCriticalPath_cyclicTasks:
  "calculateCriticalPath cyclicTasks =
     Some \<lparr>criticalPath = [1, 2], pathLength = 2, nodeLevels = map_of [(1, 0), (2, 1)]\<rparr>"
  by (simp add: calculateCriticalPath_def kahnFinal_cyclicTasks scan_def) (simp add: cyclicTasks_def)

lemma calculateCriticalPath_tiedTasks:
  "calculateCriticalPath tiedTasks =
     Some \<lparr>criticalPath = [1, 3], pathLength = 2,
           nodeLevels = map_of [(1, 0), (2, 0), (3, 1), (4, 1)]\<rparr>"
  by (simp add: calculateCriticalPath_def kahnFinal_tiedTasks scan_def) (simp add: tiedTasks_def)

section \<open>Claims about the critical path\<close>

text \<open>
  C2. For a task list whose dependency graph has no cycle, \<open>calculateCriticalPath\<close>
  returns, and the entry of every task in \<open>nodeLevels\<close> is the length of the longest
  chain of dependency edges leading into the task: there is a chain of that length and
  none is longer. No recorded level is negative, and a task for which no dependency is
  listed has level 0.
\<close>

theorem nodeLevels_longest_chain:
  assumes ac: "acyclic (depEdges todos)" and t: "t \<in> set todos"
  shows "\<exists>r l. calculateCriticalPath todos = Some r \<and> nodeLevels r (todoId t) = Some l \<and>
           chainInto todos (todoId t) (nat l) \<and>
           (\<forall>n. chainInto todos (todoId t) n \<longrightarrow> int n \<le> l) \<and>
           (\<forall>x k. nodeLevels r x = Some k \<longrightarrow> 0 \<le> k) \<and>
           ((\<forall>t'\<in>set todos. todoId t' = todoId t \<longrightarrow> dependencies t' = []) \<longrightarrow> l = 0)"
proof -
  let ?st = "kahnFinal todos"
  have ne: "todos \<noteq> []" using t by auto
  obtain dn where f: "finalFacts todos dn ?st" using kahnFinal_facts by blast
  obtain r where r: "calculateCriticalPath todos = Some r" "nodeLevels r = map_of (levels ?st)"
    using calculateCriticalPath_levels[of todos] ne by blast
  have "set dn = taskIds todos" using f ac by (rule acyclic_all_done)
  then have d: "todoId t \<in> set dn" using t by (simp add: taskIds_def)
  then obtain l where l: "map_of (levels ?st) (todoId t) = Some l"
    using finalFactsD(11)[OF f] by blast
  have l0: "0 \<le> l" using l by (rule finalFactsD(8)[OF f])
  have att: "chainInto todos (todoId t) (nat l)" using l by (rule level_attained[OF f])
  have up: "int n \<le> l" if "chainInto todos (todoId t) n" for n
    using level_upper[OF f that d] l by simp
  have nonneg: "0 \<le> k" if "nodeLevels r x = Some k" for x k
    using that r(2) finalFactsD(8)[OF f, of x k] by simp
  have root: "l = 0" if nd: "\<forall>t'\<in>set todos. todoId t' = todoId t \<longrightarrow> dependencies t' = []"
  proof (rule ccontr)
    assume "l \<noteq> 0"
    then obtain n where "nat l = Suc n" using l0 by (cases "nat l") auto
    then have "chainInto todos (todoId t) (Suc n)" using att by simp
    then obtain c where "(c, todoId t) \<in> depEdges todos" by (cases rule: chainInto.cases) auto
    then obtain t' where "t' \<in> set todos" "todoId t' = todoId t" "c \<in> todoId ` set (dependencies t')"
      by (auto simp: depEdges_def)
    then show False using nd by auto
  qed
  show ?thesis using r l att up nonneg root by (intro exI[of _ r] exI[of _ l]) simp
qed

theorem nodeLevels_longest_chain_witness:
  "acyclic (depEdges scenarioA) \<and>
   mkTask 2 (Some (noonUTC 19742)) [mkTodo 1 (Some (noonUTC 19732))] \<in> set scenarioA \<and>
   (\<exists>r. calculateCriticalPath scenarioA = Some r \<and> nodeLevels r 1 = Some 0 \<and>
        nodeLevels r 2 = Some 1 \<and> chainInto scenarioA 2 (nat 1) \<and>
        (\<forall>n. chainInto scenarioA 2 n \<longrightarrow> int n \<le> 1))"
proof -
  have "acyclic ({} :: (int \<times> int) set)" by (simp add: acyclic_def)
  then have ac: "acyclic (depEdges scenarioA)"
    by (simp add: depEdges_scenarioA)
  have t: "mkTask 2 (Some (noonUTC 19742)) [mkTodo 1 (Some (noonUTC 19732))] \<in> set scenarioA"
    by (simp add: scenarioA_def)
  have i: "todoId (mkTask 2 (Some (noonUTC 19742)) [mkTodo 1 (Some (noonUTC 19732))]) = 2"
    by (simp add: mkTask_def)
  from nodeLevels_longest_chain[OF ac t] show ?thesis
    using ac t by (auto simp: i calculateCriticalPath_scenarioA)
qed

text \<open>
  C3, at a task list of one task without dependencies: the scan for the end task
  starts at \<open>maxLevel = 0\<close> and compares with \<open>>\<close>, so no task of level 0 is ever
  picked; the critical path is empty although \<open>pathLength\<close> is 1.
\<close>

theorem calculateCriticalPath_single_task:
  "calculateCriticalPath [task 1 []] =
     Some \<lparr>criticalPath = [], pathLength = 1, nodeLevels = map_of [(1, 0)]\<rparr>"
  by (simp add: run_defs)

text \<open>
  What holds of the critical path for every list that is not empty: \<open>pathLength\<close> is
  one more than the greatest recorded level (or 1 when nothing is recorded), and when an
  end task is picked, which happens exactly when some level is positive, the path has
  \<open>pathLength\<close> entries, all tasks of the list, each a dependency of the next, and the
  first has level 0.
\<close>

lemma criticalPath_shape:
  assumes ne: "todos \<noteq> []"
  shows "\<exists>r. calculateCriticalPath todos = Some r \<and> 1 \<le> pathLength r \<and>
           (\<forall>x l. nodeLevels r x = Some l \<longrightarrow> l \<le> pathLength r - 1) \<and>
           (criticalPath r = [] \<longleftrightarrow> (\<forall>x l. nodeLevels r x = Some l \<longrightarrow> l = 0)) \<and>
           (criticalPath r \<noteq> [] \<longrightarrow>
              int (length (criticalPath r)) = pathLength r \<and>
              nodeLevels r (last (criticalPath r)) = Some (pathLength r - 1) \<and>
              nodeLevels r (hd (criticalPath r)) = Some 0 \<and>
              set (criticalPath r) \<subseteq> taskIds todos \<and>
              successively (\<lambda>a b. (a, b) \<in> depEdges todos) (criticalPath r))"
proof -
  let ?st = "kahnFinal todos"
  obtain dn where f: "finalFacts todos dn ?st" using kahnFinal_facts by blast
  from calculateCriticalPath_result[OF ne f]
  obtain m e p where s: "fold scan (levels ?st) (0, None) = (m, e)"
    and r: "calculateCriticalPath todos =
             Some \<lparr>criticalPath = p, pathLength = m + 1, nodeLevels = map_of (levels ?st)\<rparr>"
    and none: "e = None \<Longrightarrow> p = [] \<and> m = 0"
    and some: "\<And>k. e = Some k \<Longrightarrow>
              map_of (levels ?st) k = Some m \<and> 0 < m \<and>
              length p = nat m + 1 \<and> last p = k \<and>
              map_of (levels ?st) (hd p) = Some 0 \<and>
              successively (\<lambda>a b. (a, b) \<in> depEdges todos) p \<and> set p \<subseteq> taskIds todos \<and>
              set (butlast p) \<subseteq> set dn"
    by blast
  note sc = fold_scan[OF s]
  have m0: "0 \<le> m" using sc by simp
  have le: "l \<le> m" if "map_of (levels ?st) x = Some l" for x l
  proof -
    have "(x, l) \<in> set (levels ?st)" using that by (rule map_of_SomeD)
    then show ?thesis using sc by auto
  qed
  have zero: "l = 0" if "e = None" "map_of (levels ?st) x = Some l" for x l
    using le[OF that(2)] none[OF that(1)] finalFactsD(8)[OF f that(2)] by simp
  have emp: "p = [] \<longleftrightarrow> (\<forall>x l. map_of (levels ?st) x = Some l \<longrightarrow> l = 0)"
  proof (cases e)
    case None
    then show ?thesis using none zero by blast
  next
    case (Some k)
    then have "map_of (levels ?st) k = Some m" "0 < m" "length p = nat m + 1" using some by blast+
    then show ?thesis by auto
  qed
  have full: "int (length p) = m + 1 \<and> map_of (levels ?st) (last p) = Some m \<and>
              map_of (levels ?st) (hd p) = Some 0 \<and> set p \<subseteq> taskIds todos \<and>
              successively (\<lambda>a b. (a, b) \<in> depEdges todos) p" if "p \<noteq> []"
  proof (cases e)
    case None
    then show ?thesis using none that by simp
  next
    case (Some k)
    then show ?thesis using some[OF Some] by auto
  qed
  show ?thesis
    using r m0 le emp full
    by (intro exI[of _ "\<lparr>criticalPath = p, pathLength = m + 1, nodeLevels = map_of (levels ?st)\<rparr>"])
      simp
qed

text \<open>
  The tie-break where the code has one. Whenever an end task is picked, which needs a
  positive level, it is the first entry, in the iteration order of the \<open>levels\<close> map,
  whose level is the greatest one: every entry before it has a smaller level and none
  after it a greater one. And an edge worked off for a task that already has a recorded
  level takes the parent slot exactly when the level it proposes is greater than the
  recorded one; an equal proposal leaves level and parent as they are.
\<close>

lemma end_task_first_of_greatest_level:
  "(calculateCriticalPath todos = Some r \<longrightarrow> criticalPath r \<noteq> [] \<longrightarrow>
      (\<exists>pre post. levels (kahnFinal todos)
                     = pre @ (last (criticalPath r), pathLength r - 1) # post \<and>
         (\<forall>e\<in>set pre. snd e < pathLength r - 1) \<and>
         (\<forall>e\<in>set post. snd e \<le> pathLength r - 1))) \<and>
   (0 \<le> currentLevel \<longrightarrow> map_of (levels st) dependent = Some recorded \<longrightarrow>
      (recorded < currentLevel + 1 \<longrightarrow>
         map_of (levels (relax current currentLevel dependent st)) dependent
           = Some (currentLevel + 1) \<and>
         map_of (parent (relax current currentLevel dependent st)) dependent
           = Some (Some current)) \<and>
      (currentLevel + 1 \<le> recorded \<longrightarrow>
         map_of (levels (relax current currentLevel dependent st)) dependent = Some recorded \<and>
         map_of (parent (relax current currentLevel dependent st)) dependent
           = map_of (parent st) dependent))"
proof -
  have a: "\<exists>pre post. levels (kahnFinal todos)
                     = pre @ (last (criticalPath r), pathLength r - 1) # post \<and>
         (\<forall>e\<in>set pre. snd e < pathLength r - 1) \<and>
         (\<forall>e\<in>set post. snd e \<le> pathLength r - 1)"
    if r: "calculateCriticalPath todos = Some r" and ne: "criticalPath r \<noteq> []"
  proof -
    let ?st = "kahnFinal todos"
    have tne: "todos \<noteq> []" using r ne by (auto simp: calculateCriticalPath_empty)
    obtain dn where f: "finalFacts todos dn ?st" using kahnFinal_facts by blast
    from calculateCriticalPath_result[OF tne f]
    obtain m e p where s: "fold scan (levels ?st) (0, None) = (m, e)"
      and r': "calculateCriticalPath todos =
               Some \<lparr>criticalPath = p, pathLength = m + 1, nodeLevels = map_of (levels ?st)\<rparr>"
      and none: "e = None \<Longrightarrow> p = [] \<and> m = 0"
      and some: "\<And>k. e = Some k \<Longrightarrow> last p = k"
      by blast
    have p: "criticalPath r = p" and m: "pathLength r = m + 1" using r r' by auto
    obtain k where k: "e = Some k" using none ne p by (cases e) auto
    then obtain pre post where "levels ?st = pre @ (k, m) # post"
      "\<forall>x\<in>set pre. snd x < m" "\<forall>x\<in>set post. snd x \<le> m"
      using fold_scan[OF s] by auto
    then show ?thesis using some[OF k] p m by auto
  qed
  have b: "map_of (levels (relax current currentLevel dependent st)) dependent
           = Some (currentLevel + 1) \<and>
         map_of (parent (relax current currentLevel dependent st)) dependent
           = Some (Some current)"
    if "0 \<le> currentLevel" "map_of (levels st) dependent = Some recorded"
      "recorded < currentLevel + 1"
  proof -
    have "currentLevel + 1 > orElse (map_of (levels st) dependent) (- 1)"
      using that by (simp add: orElse_def)
    then show ?thesis by (simp add: relax_levels relax_parent update_conv')
  qed
  have c: "map_of (levels (relax current currentLevel dependent st)) dependent = Some recorded \<and>
         map_of (parent (relax current currentLevel dependent st)) dependent
           = map_of (parent st) dependent"
    if "0 \<le> currentLevel" "map_of (levels st) dependent = Some recorded"
      "currentLevel + 1 \<le> recorded"
  proof -
    have "\<not> currentLevel + 1 > orElse (map_of (levels st) dependent) (- 1)"
      using that by (simp add: orElse_def)
    then show ?thesis using that(2) by (simp add: relax_levels relax_parent)
  qed
  show ?thesis using a b c by blast
qed

text \<open>A state of the pass in which task 3 has level 1 from task 1, and task 2 of level 0 proposes 1 again.\<close>

definition tiedState :: kahnState where
  "tiedState =
     \<lparr>queue = [2], levels = [(1, 0), (2, 0), (3, 1)],
      parent = [(1, None), (2, None), (3, Some 1)], inDegree = [(1, 0), (2, 0), (3, 1)]\<rparr>"

lemma end_task_first_of_greatest_level_tiedTasks:
  "calculateCriticalPath tiedTasks =
     Some \<lparr>criticalPath = [1, 3], pathLength = 2,
           nodeLevels = map_of [(1, 0), (2, 0), (3, 1), (4, 1)]\<rparr> \<and>
   (\<exists>pre post. levels (kahnFinal tiedTasks) = pre @ (3, 1) # post \<and>
      (\<forall>e\<in>set pre. snd e < 1) \<and> (\<forall>e\<in>set post. snd e \<le> 1)) \<and>
   map_of (levels tiedState) 3 = Some 1 \<and>
   map_of (levels (relax 2 0 3 tiedState)) 3 = Some 1 \<and>
   map_of (parent (relax 2 0 3 tiedState)) 3 = Some (Some 1) \<and>
   map_of (parent (relax 2 1 3 tiedState)) 3 = Some (Some 2)"
proof -
  let ?r = "\<lparr>criticalPath = [1, 3], pathLength = 2,
           nodeLevels = map_of [(1, 0), (2, 0), (3, 1), (4, 1)]\<rparr>"
  have l: "map_of (levels tiedState) 3 = Some 1" "map_of (parent tiedState) 3 = Some (Some 1)"
    by (simp_all add: tiedState_def)
  have p: "criticalPath ?r \<noteq> []" "last (criticalPath ?r) = 3" "pathLength ?r - 1 = 1"
    by simp_all
  show ?thesis
    using end_task_first_of_greatest_level[of tiedTasks ?r 0 tiedState 3 1 2]
      end_task_first_of_greatest_level[of tiedTasks ?r 1 tiedState 3 1 2]
      calculateCriticalPath_tiedTasks l p
    by simp
qed

text \<open>
  C5, at two tasks without dependencies: both share the greatest level, 0, and task 1 is
  the first of them in the iteration order of the \<open>levels\<close> map, but the scan for the
  end task starts at \<open>maxLevel = 0\<close> with no end task and compares with \<open>>\<close>, so
  neither is picked: \<open>endTask\<close> stays \<open>null\<close> and the critical path is empty.
\<close>

theorem calculateCriticalPath_tied_roots:
  "calculateCriticalPath [task 1 [], task 2 []] =
     Some \<lparr>criticalPath = [], pathLength = 1, nodeLevels = map_of [(1, 0), (2, 0)]\<rparr> \<and>
   levels (kahnFinal [task 1 [], task 2 []]) = [(1, 0), (2, 0)] \<and>
   fold scan (levels (kahnFinal [task 1 [], task 2 []])) (0, None) = (0, None)"
  by (simp add: run_defs)

text \<open>
  C6, as the code has it. \<open>calculateCriticalPath\<close> returns a result for every task
  list. A task on a dependency cycle never leaves the queue: its in-degree is still
  positive when the loop ends. It gets a level only from a dependency that lies on no
  cycle and has a level itself, one less; then it is in \<open>nodeLevels\<close>, and in the
  critical path it can only be the last entry. A task on a cycle that gets no level is
  in neither \<open>nodeLevels\<close> nor the critical path.
\<close>

theorem cycle_tasks_stay_queued:
  "(\<exists>r. calculateCriticalPath todos = Some r) \<and>
   ((x, x) \<in> (depEdges todos)\<^sup>+ \<longrightarrow>
      (\<exists>d. map_of (inDegree (kahnFinal todos)) x = Some d \<and> 1 \<le> d) \<and>
      (\<forall>r. calculateCriticalPath todos = Some r \<longrightarrow>
         x \<notin> set (butlast (criticalPath r)) \<and>
         (nodeLevels r x = None \<longrightarrow> x \<notin> set (criticalPath r)) \<and>
         (\<forall>l. nodeLevels r x = Some l \<longrightarrow>
            (\<exists>p. (p, x) \<in> depEdges todos \<and> (p, p) \<notin> (depEdges todos)\<^sup>+ \<and>
                 nodeLevels r p = Some (l - 1)))))"
proof -
  let ?st = "kahnFinal todos"
  have total: "\<exists>r. calculateCriticalPath todos = Some r"
    using calculateCriticalPath_levels[of todos] by blast
  obtain dn where f: "finalFacts todos dn ?st" using kahnFinal_facts by blast
  have cyc: "(\<exists>d. map_of (inDegree ?st) x = Some d \<and> 1 \<le> d) \<and>
      (\<forall>r. calculateCriticalPath todos = Some r \<longrightarrow>
         x \<notin> set (butlast (criticalPath r)) \<and>
         (nodeLevels r x = None \<longrightarrow> x \<notin> set (criticalPath r)) \<and>
         (\<forall>l. nodeLevels r x = Some l \<longrightarrow>
            (\<exists>p. (p, x) \<in> depEdges todos \<and> (p, p) \<notin> (depEdges todos)\<^sup>+ \<and>
                 nodeLevels r p = Some (l - 1))))"
    if c: "(x, x) \<in> (depEdges todos)\<^sup>+"
  proof -
    have nd: "x \<notin> set dn" using f c by (rule cycle_not_done)
    obtain y where "(y, x) \<in> depEdges todos" using c by (meson tranclE)
    then have xK: "x \<in> taskIds todos" by (auto simp: depEdges_def taskIds_def)
    then have tne: "todos \<noteq> []" by (auto simp: taskIds_def)
    have 1: "\<exists>d. map_of (inDegree ?st) x = Some d \<and> 1 \<le> d"
      using xK nd by (rule finalFactsD(6)[OF f])
    from calculateCriticalPath_result[OF tne f]
    obtain m e p where
      r': "calculateCriticalPath todos =
               Some \<lparr>criticalPath = p, pathLength = m + 1, nodeLevels = map_of (levels ?st)\<rparr>"
      and none: "e = None \<Longrightarrow> p = [] \<and> m = 0"
      and some: "\<And>k. e = Some k \<Longrightarrow> set (butlast p) \<subseteq> set dn"
      and lst: "\<And>k. e = Some k \<Longrightarrow>
                  map_of (levels ?st) k = Some m \<and> length p = nat m + 1 \<and> last p = k"
      by blast
    have bl: "set (butlast p) \<subseteq> set dn"
    proof (cases e)
      case None
      then show ?thesis using none by simp
    next
      case (Some k)
      then show ?thesis by (rule some)
    qed
    have 2: "x \<notin> set (butlast (criticalPath r)) \<and>
         (nodeLevels r x = None \<longrightarrow> x \<notin> set (criticalPath r)) \<and>
         (\<forall>l. nodeLevels r x = Some l \<longrightarrow>
            (\<exists>p. (p, x) \<in> depEdges todos \<and> (p, p) \<notin> (depEdges todos)\<^sup>+ \<and>
                 nodeLevels r p = Some (l - 1)))"
      if r: "calculateCriticalPath todos = Some r" for r
    proof -
      have cp: "criticalPath r = p" and nl: "nodeLevels r = map_of (levels ?st)"
        using r r' by auto
      have a: "x \<notin> set (butlast (criticalPath r))" using bl nd cp by auto
      have b: "\<exists>q. (q, x) \<in> depEdges todos \<and> (q, q) \<notin> (depEdges todos)\<^sup>+ \<and>
                 nodeLevels r q = Some (l - 1)" if l: "nodeLevels r x = Some l" for l
      proof -
        have lx: "map_of (levels ?st) x = Some l" using l nl by simp
        from finalFactsD(10)[OF f lx] nd
        obtain q where q: "q \<in> set dn" "(q, x) \<in> depEdges todos"
          "map_of (levels ?st) q = Some (l - 1)" by blast
        have "(q, q) \<notin> (depEdges todos)\<^sup>+" using cycle_not_done[OF f] q(1) by blast
        then show ?thesis using q nl by auto
      qed
      have n: "x \<notin> set (criticalPath r)" if nx: "nodeLevels r x = None"
      proof (cases e)
        case None
        then show ?thesis using none cp by simp
      next
        case (Some k)
        from lst[OF Some] have lk: "map_of (levels ?st) k = Some m" and pne: "p \<noteq> []"
          and lp: "last p = k" by auto
        have "x \<noteq> last p" using lk lp nx nl by auto
        moreover have "x \<notin> set (butlast p)" using bl nd by auto
        moreover have "set p = insert (last p) (set (butlast p))"
          using pne by (metis append_butlast_last_id list.simps(15) set_append Un_insert_right
              sup_bot.right_neutral empty_set)
        ultimately show ?thesis using cp by simp
      qed
      show ?thesis using a n b by blast
    qed
    show ?thesis using 1 2 by blast
  qed
  show ?thesis using total cyc by blast
qed

lemma cyclicTasks_cycle:
  "(2, 2) \<in> (depEdges cyclicTasks)\<^sup>+" "(3, 3) \<in> (depEdges cyclicTasks)\<^sup>+"
proof -
  have "(2, 3) \<in> depEdges cyclicTasks" "(3, 2) \<in> depEdges cyclicTasks"
    by (simp_all add: depEdges_cyclicTasks)
  then show "(2, 2) \<in> (depEdges cyclicTasks)\<^sup>+" "(3, 3) \<in> (depEdges cyclicTasks)\<^sup>+"
    by (meson trancl.intros)+
qed

theorem cycle_tasks_stay_queued_witness:
  "(2, 2) \<in> (depEdges cyclicTasks)\<^sup>+ \<and>
   (\<exists>d. map_of (inDegree (kahnFinal cyclicTasks)) 2 = Some d \<and> 1 \<le> d) \<and>
   (\<exists>r. calculateCriticalPath cyclicTasks = Some r \<and> 2 \<notin> set (butlast (criticalPath r)) \<and>
      nodeLevels r 2 = Some 1 \<and>
      (\<exists>p. (p, 2) \<in> depEdges cyclicTasks \<and> (p, p) \<notin> (depEdges cyclicTasks)\<^sup>+ \<and>
           nodeLevels r p = Some (1 - 1))) \<and>
   (3, 3) \<in> (depEdges cyclicTasks)\<^sup>+ \<and>
   (\<exists>d. map_of (inDegree (kahnFinal cyclicTasks)) 3 = Some d \<and> 1 \<le> d) \<and>
   (\<exists>r. calculateCriticalPath cyclicTasks = Some r \<and> nodeLevels r 3 = None \<and>
      3 \<notin> set (criticalPath r))"
proof -
  let ?r = "\<lparr>criticalPath = [1, 2], pathLength = 2, nodeLevels = map_of [(1, 0), (2, 1)]\<rparr>"
  have l: "nodeLevels ?r 2 = Some 1" by simp
  have l3: "nodeLevels ?r 3 = None" by simp
  from cycle_tasks_stay_queued[of cyclicTasks 3] cyclicTasks_cycle(2)
  have a3: "\<exists>d. map_of (inDegree (kahnFinal cyclicTasks)) 3 = Some d \<and> 1 \<le> d"
    and b3: "\<And>r. calculateCriticalPath cyclicTasks = Some r \<Longrightarrow>
         nodeLevels r 3 = None \<longrightarrow> 3 \<notin> set (criticalPath r)"
    by blast+
  from b3[OF calculateCriticalPath_cyclicTasks] l3
  have c3: "3 \<notin> set (criticalPath ?r)" by blast
  from cycle_tasks_stay_queued[of cyclicTasks 2] cyclicTasks_cycle(1)
  have a: "\<exists>d. map_of (inDegree (kahnFinal cyclicTasks)) 2 = Some d \<and> 1 \<le> d"
    and b: "\<And>r. calculateCriticalPath cyclicTasks = Some r \<Longrightarrow>
         2 \<notin> set (butlast (criticalPath r)) \<and>
         (\<forall>l. nodeLevels r 2 = Some l \<longrightarrow>
            (\<exists>p. (p, 2) \<in> depEdges cyclicTasks \<and> (p, p) \<notin> (depEdges cyclicTasks)\<^sup>+ \<and>
                 nodeLevels r p = Some (l - 1)))"
    by blast+
  from b[OF calculateCriticalPath_cyclicTasks] l
  have "2 \<notin> set (butlast (criticalPath ?r)) \<and>
        (\<exists>p. (p, 2) \<in> depEdges cyclicTasks \<and> (p, p) \<notin> (depEdges cyclicTasks)\<^sup>+ \<and>
                 nodeLevels ?r p = Some (1 - 1))"
    by blast
  then have "\<exists>r. calculateCriticalPath cyclicTasks = Some r \<and>
      2 \<notin> set (butlast (criticalPath r)) \<and> nodeLevels r 2 = Some 1 \<and>
      (\<exists>p. (p, 2) \<in> depEdges cyclicTasks \<and> (p, p) \<notin> (depEdges cyclicTasks)\<^sup>+ \<and>
           nodeLevels r p = Some (1 - 1))"
    using calculateCriticalPath_cyclicTasks l by blast
  moreover have "\<exists>r. calculateCriticalPath cyclicTasks = Some r \<and> nodeLevels r 3 = None \<and>
      3 \<notin> set (criticalPath r)"
    using calculateCriticalPath_cyclicTasks l3 c3 by blast
  ultimately show ?thesis using cyclicTasks_cycle a a3 by blast
qed

text \<open>
  C6, as the specification states it, fails: task 2 lies on the cycle between tasks 2
  and 3 and depends on task 1 as well, so it is given level 1, is in \<open>nodeLevels\<close>
  and ends the critical path.
\<close>

theorem cycle_task_gets_level_counterexample:
  "(2, 2) \<in> (depEdges cyclicTasks)\<^sup>+ \<and>
   (\<exists>r. calculateCriticalPath cyclicTasks = Some r \<and> nodeLevels r 2 = Some 1 \<and>
        2 \<in> set (criticalPath r))"
  using cyclicTasks_cycle(1) by (simp add: calculateCriticalPath_cyclicTasks)

end
